theory Spec2Isabelle
  imports Main "HOL-Library.Word"
begin

section \<open>Common ground: sizes, storage, outcomes\<close>

text \<open>
  The library is two sequence containers, \<open>ArrayList<T>\<close> (src/src/ArrayList.cpp) and
  \<open>LinkedList<T>\<close> (src/src/LinkedList.cpp), and two adapters over them.

  \<^item> \<open>size_t\<close> is a 64-bit unsigned integer: arithmetic on it wraps.
  \<^item> The element type \<open>T\<close> is a type of class \<open>default\<close>; the constant \<open>default\<close> is
    \<open>value_type()\<close>, the default-constructed element.
  \<^item> Storage obtained from \<open>new\<close> lives in a heap: the list of all cells ever handed
    out, a cell being \<open>Some\<close> object while allocated and \<open>None\<close> once released; an
    address is a position in that list. The container object itself (its fields) is a
    record that the operations take and give back, next to the heap.
  \<^item> \<open>new\<close> gives a new address. Running out of memory (\<open>std::bad_alloc\<close> from the
    allocation function) is not part of this model. The check that the language makes
    on the length of an array before it allocates is: \<open>new T[n]\<close> throws
    \<open>std::bad_array_new_length\<close> when \<open>n\<close> is above the limit that the implementation
    has for arrays of \<open>T\<close> (at the least, \<open>n * sizeof(T)\<close> has to be a \<open>size_t\<close> value).
    That limit, a number of elements, is the parameter \<open>lim\<close> of the functions that
    allocate arrays.
\<close>

type_synonym size_t = "64 word"
type_synonym addr = nat

type_synonym 'o heap = "'o option list"

definition cell :: "'o heap \<Rightarrow> addr \<Rightarrow> 'o option" where
  "cell h a = (if a < length h then h ! a else None)"

definition alloc :: "'o heap \<Rightarrow> 'o \<Rightarrow> addr \<times> 'o heap" where
  "alloc h obj = (length h, h @ [Some obj])"

text \<open>Releasing storage that is not allocated is undefined behaviour: \<open>None\<close>.\<close>

definition free :: "'o heap \<Rightarrow> addr \<Rightarrow> 'o heap option" where
  "free h a = (case cell h a of
       None \<Rightarrow> None
     | Some _ \<Rightarrow> Some (h[a := None]))"

text \<open>
  The exceptions. \<open>OutOfRange\<close> is \<open>std::out_of_range\<close>; it carries the index whose
  decimal text is the message. \<open>Underflow\<close> is the (empty) class
  \<open>StackBase<T>::Underflow\<close> or \<open>QueueBase<T>::Underflow\<close>. \<open>BadArrayNewLength\<close> is
  \<open>std::bad_array_new_length\<close>, thrown by \<open>new T[n]\<close>.
\<close>

datatype error = OutOfRange size_t | Underflow | BadArrayNewLength

text \<open>
  What a member function that can throw does: it returns a value in a final state, or
  throws in the state reached at the \<open>throw\<close>, or runs into undefined behaviour (an
  access outside allocated storage), after which there is no state to speak of. The
  state is the object the function is a member of, and the heap.

  A function with no \<open>throw\<close> on any path gives \<open>Some\<close> final state, or \<open>None\<close> for
  undefined behaviour.
\<close>

datatype ('s, 'r) outcome = Returns 'r 's | Throws error 's | Undefined

text \<open>\<open>int()\<close> is 0: the element type of the tests.\<close>

instantiation int :: default
begin

definition default_int :: int where
  "default_int = 0"

instance ..

end

section \<open>ArrayList\<close>

text \<open>
  \<open>size_t mSize; size_t mCapacity; ScopedArray<T> mArray;\<close> (include/ArrayList.h).
  \<open>mArray\<close> is the address of the buffer; the buffer is the list of its slots.
\<close>

record ArrayList =
  mSize :: size_t
  mCapacity :: size_t
  mArray :: addr

type_synonym 'a aheap = "'a list heap"

text \<open>
  \<open>new T[n]\<close>: \<open>None\<close> when \<open>n\<close> is above the limit (\<open>std::bad_array_new_length\<close> is
  thrown and nothing is allocated), otherwise \<open>n\<close> default-constructed slots.
\<close>

definition new_array :: "nat \<Rightarrow> 'a::default aheap \<Rightarrow> size_t \<Rightarrow> (addr \<times> 'a aheap) option" where
  "new_array lim h n = (if unat n \<le> lim then Some (alloc h (replicate (unat n) default)) else None)"

text \<open>\<open>delete[]\<close>, as run by \<open>~ScopedArray\<close>.\<close>

definition delete_array :: "'a aheap \<Rightarrow> addr \<Rightarrow> 'a aheap option" where
  "delete_array h a = free h a"

text \<open>
  A \<open>T*\<close> into a buffer is the address of the buffer and a position, which can lie
  outside the buffer: only reading or writing through such a pointer is undefined.
  Positions are unbounded: the wrap-around of a machine address at the end of the
  address space is not part of the model, a pointer that far outside its buffer is
  never read or written without the result \<open>Undefined\<close>.
\<close>

type_synonym ptr = "addr \<times> int"

definition ptr_plus :: "ptr \<Rightarrow> int \<Rightarrow> ptr" where
  "ptr_plus p n = (fst p, snd p + n)"

definition load_ptr :: "'a aheap \<Rightarrow> ptr \<Rightarrow> 'a option" where
  "load_ptr h p = (case cell h (fst p) of
       None \<Rightarrow> None
     | Some buf \<Rightarrow> if 0 \<le> snd p \<and> nat (snd p) < length buf then Some (buf ! nat (snd p)) else None)"

definition store_ptr :: "'a aheap \<Rightarrow> ptr \<Rightarrow> 'a \<Rightarrow> 'a aheap option" where
  "store_ptr h p v = (case cell h (fst p) of
       None \<Rightarrow> None
     | Some buf \<Rightarrow>
         if 0 \<le> snd p \<and> nat (snd p) < length buf
         then Some (h[fst p := Some (buf[nat (snd p) := v])])
         else None)"

text \<open>
  The iterators (include/ArrayListIterators.h) hold a \<open>T* mPtr\<close>. Their arithmetic is in
  \<open>int\<close>: \<open>operator+(int offset)\<close> takes the offset as an \<open>int\<close>, and
  \<open>int operator-(const ArrayListIterator<T>& rhs)\<close> gives the difference of the two
  pointers as an \<open>int\<close>. \<open>to_int\<close> is the conversion of an integer value (a \<open>size_t\<close>, a
  \<open>ptrdiff_t\<close>) to the 32-bit \<open>int\<close>: the value modulo \<open>2^32\<close>, read as a signed number
  in two's complement.
\<close>

definition to_int :: "int \<Rightarrow> int" where
  "to_int n = sint (word_of_int n :: 32 word)"

definition iter_plus :: "ptr \<Rightarrow> int \<Rightarrow> ptr" where
  "iter_plus it offset = ptr_plus it (to_int offset)"

definition iter_diff :: "ptr \<Rightarrow> ptr \<Rightarrow> int" where
  "iter_diff it rhs = to_int (snd it - snd rhs)"

text \<open>
  \<open>std::copy(first, last, result)\<close> on random access iterators, as libstdc++ has it
  (\<open>stop\<close> is \<open>last\<close>): the number of steps is \<open>last - first\<close>, taken once with the
  iterators' \<open>operator-\<close>; each step is \<open>*result = *first; ++first; ++result;\<close>.
\<close>

primrec copy_steps :: "nat \<Rightarrow> ptr \<Rightarrow> ptr \<Rightarrow> 'a aheap \<Rightarrow> 'a aheap option" where
  "copy_steps 0 first result h = Some h"
| "copy_steps (Suc n) first result h =
     (case load_ptr h first of
        None \<Rightarrow> None
      | Some x \<Rightarrow>
          (case store_ptr h result x of
             None \<Rightarrow> None
           | Some h' \<Rightarrow> copy_steps n (ptr_plus first 1) (ptr_plus result 1) h'))"

definition std_copy :: "ptr \<Rightarrow> ptr \<Rightarrow> ptr \<Rightarrow> 'a aheap \<Rightarrow> 'a aheap option" where
  "std_copy first stop result h =
     (let n = iter_diff stop first in if 0 < n then copy_steps (nat n) first result h else Some h)"

text \<open>
  \<open>std::fill(p + lo, p + hi, v)\<close>, \<open>p[i] = v\<close> and \<open>p[i]\<close> on a buffer \<open>p\<close>, with positions
  of type \<open>size_t\<close>. Each is defined only inside the buffer.
\<close>

definition fill_range :: "'a aheap \<Rightarrow> addr \<Rightarrow> nat \<Rightarrow> nat \<Rightarrow> 'a \<Rightarrow> 'a aheap option" where
  "fill_range h p lo hi v = (case cell h p of
       None \<Rightarrow> None
     | Some buf \<Rightarrow>
         if lo \<le> hi \<and> hi \<le> length buf
         then Some (h[p := Some (take lo buf @ replicate (hi - lo) v @ drop hi buf)])
         else None)"

definition store_at :: "'a aheap \<Rightarrow> addr \<Rightarrow> nat \<Rightarrow> 'a \<Rightarrow> 'a aheap option" where
  "store_at h p i v = (case cell h p of
       None \<Rightarrow> None
     | Some buf \<Rightarrow> if i < length buf then Some (h[p := Some (buf[i := v])]) else None)"

definition load_at :: "'a aheap \<Rightarrow> addr \<Rightarrow> nat \<Rightarrow> 'a option" where
  "load_at h p i = (case cell h p of
       None \<Rightarrow> None
     | Some buf \<Rightarrow> if i < length buf then Some (buf ! i) else None)"

text \<open>\<open>std::equal(p, p + n, q)\<close>.\<close>

definition equal_range :: "'a aheap \<Rightarrow> addr \<Rightarrow> nat \<Rightarrow> addr \<Rightarrow> bool option" where
  "equal_range h p n q = (case (cell h p, cell h q) of
       (Some xs, Some ys) \<Rightarrow>
         if n \<le> length xs \<and> n \<le> length ys then Some (take n xs = take n ys) else None
     | _ \<Rightarrow> None)"

text \<open>
  An argument of type \<open>const T&\<close> is bound either to an object that is not in a
  buffer (a local variable, a temporary), which is its value, or to a slot of a buffer,
  as the reference that \<open>get\<close> returns is. Reading through it reads the slot at that
  moment.
\<close>

datatype 'a ref = Val 'a | Slot addr nat

definition deref :: "'a aheap \<Rightarrow> 'a ref \<Rightarrow> 'a option" where
  "deref h r = (case r of Val v \<Rightarrow> Some v | Slot a i \<Rightarrow> load_at h a i)"

text \<open>\<open>begin()\<close> and \<open>end()\<close>: iterators at \<open>mArray.get()\<close> and at \<open>mArray.get() + mSize\<close>.\<close>

definition ArrayList_begin :: "ArrayList \<Rightarrow> ptr" where
  "ArrayList_begin l = (mArray l, 0)"

definition ArrayList_end :: "ArrayList \<Rightarrow> ptr" where
  "ArrayList_end l = (mArray l, uint (mSize l))"

text \<open>
  \<open>ArrayList(size_t size, const_reference value)\<close>: members are initialised in the
  order \<open>mSize\<close>, \<open>mCapacity\<close>, \<open>mArray\<close>, then \<open>std::fill(begin(), end(), value)\<close>, a loop
  from \<open>begin()\<close> until \<open>end()\<close> is met. The state of a constructor is the heap, its
  result the object. (\<open>value\<close> is read before anything is released and before any
  slot it could refer to is written: the argument here is its value. The same holds
  for \<open>value\<close> in \<open>add(index, value)\<close> and in \<open>set(index, value)\<close>.)
\<close>

definition ArrayList_ctor :: "nat \<Rightarrow> size_t \<Rightarrow> 'a::default \<Rightarrow> 'a aheap \<Rightarrow> ('a aheap, ArrayList) outcome" where
  "ArrayList_ctor lim sz value h =
     (case new_array lim h (sz * 2) of
        None \<Rightarrow> Throws BadArrayNewLength h
      | Some (a, h1) \<Rightarrow>
          (case fill_range h1 a 0 (unat sz) value of
             None \<Rightarrow> Undefined
           | Some h2 \<Rightarrow> Returns \<lparr>mSize = sz, mCapacity = sz * 2, mArray = a\<rparr> h2))"

text \<open>
  \<open>ArrayList(const ArrayList<T>& src)\<close>:
  \<open>std::copy(src.begin(), src.end(), begin())\<close> into the new buffer.
\<close>

definition ArrayList_copy_ctor :: "nat \<Rightarrow> ArrayList \<Rightarrow> 'a::default aheap \<Rightarrow> ('a aheap, ArrayList) outcome" where
  "ArrayList_copy_ctor lim src h =
     (case new_array lim h (mSize src) of
        None \<Rightarrow> Throws BadArrayNewLength h
      | Some (a, h1) \<Rightarrow>
          (let this = \<lparr>mSize = mSize src, mCapacity = mSize src, mArray = a\<rparr> in
           case std_copy (ArrayList_begin src) (ArrayList_end src) (ArrayList_begin this) h1 of
             None \<Rightarrow> Undefined
           | Some h2 \<Rightarrow> Returns this h2))"

text \<open>The implicit destructor: the member \<open>mArray\<close> releases its buffer.\<close>

definition ArrayList_dtor :: "ArrayList \<Rightarrow> 'a aheap \<Rightarrow> 'a aheap option" where
  "ArrayList_dtor l h = delete_array h (mArray l)"

text \<open>\<open>swap(other)\<close> exchanges the three members: the pair is (this, other) afterwards.\<close>

definition ArrayList_swap :: "ArrayList \<Rightarrow> ArrayList \<Rightarrow> ArrayList \<times> ArrayList" where
  "ArrayList_swap l other =
     (l\<lparr>mSize := mSize other, mCapacity := mCapacity other, mArray := mArray other\<rparr>,
      other\<lparr>mSize := mSize l, mCapacity := mCapacity l, mArray := mArray l\<rparr>)"

text \<open>
  \<open>operator=\<close>. \<open>this != &rhs\<close> compares the addresses of the two objects, which are
  arguments here.
\<close>

definition ArrayList_assign ::
  "nat \<Rightarrow> addr \<times> ArrayList \<Rightarrow> addr \<times> ArrayList \<Rightarrow> 'a::default aheap \<Rightarrow>
   (ArrayList \<times> 'a aheap, unit) outcome" where
  "ArrayList_assign lim this rhs h =
     (if fst this \<noteq> fst rhs then
        (case ArrayList_copy_ctor lim (snd rhs) h of
           Returns copy h1 \<Rightarrow>
             (let (l', copy') = ArrayList_swap (snd this) copy in
              case ArrayList_dtor copy' h1 of
                None \<Rightarrow> Undefined
              | Some h2 \<Rightarrow> Returns () (l', h2))
         | Throws e h1 \<Rightarrow> Throws e (snd this, h1)
         | Undefined \<Rightarrow> Undefined)
      else Returns () (snd this, h))"

text \<open>\<open>rangeCheck(index)\<close>.\<close>

definition rangeCheck :: "ArrayList \<Rightarrow> size_t \<Rightarrow> error option" where
  "rangeCheck l index = (if index \<ge> mSize l then Some (OutOfRange index) else None)"

text \<open>
  \<open>add(const_reference value)\<close>. The block of the \<open>if\<close> ends with the destructor of
  \<open>temp\<close>, which by then holds the old buffer and releases it. \<open>value\<close> is read after
  that, in \<open>mArray[mSize] = value\<close>: the argument is the reference.
\<close>

definition ArrayList_add ::
  "nat \<Rightarrow> 'a ref \<Rightarrow> ArrayList \<Rightarrow> 'a::default aheap \<Rightarrow> (ArrayList \<times> 'a aheap, unit) outcome" where
  "ArrayList_add lim value l h =
     (case (if mSize l \<ge> mCapacity l then
              (case new_array lim h (2 * mSize l + 2) of
                 None \<Rightarrow> Throws BadArrayNewLength (l, h)
               | Some (temp, h1) \<Rightarrow>
                   (case std_copy (ArrayList_begin l) (ArrayList_end l) (temp, 0) h1 of
                      None \<Rightarrow> Undefined
                    | Some h2 \<Rightarrow>
                        (case delete_array h2 (mArray l) of
                           None \<Rightarrow> Undefined
                         | Some h3 \<Rightarrow> Returns () (l\<lparr>mArray := temp, mCapacity := 2 * mSize l + 2\<rparr>, h3))))
            else Returns () (l, h)) of
        Returns _ (l1, h4) \<Rightarrow>
          (case deref h4 value of
             None \<Rightarrow> Undefined
           | Some v \<Rightarrow>
               (case store_at h4 (mArray l1) (unat (mSize l1)) v of
                  None \<Rightarrow> Undefined
                | Some h5 \<Rightarrow> Returns () (l1\<lparr>mSize := mSize l1 + 1\<rparr>, h5)))
      | Throws e s \<Rightarrow> Throws e s
      | Undefined \<Rightarrow> Undefined)"

text \<open>
  \<open>add(size_t index, const_reference value)\<close>. \<open>begin() + std::min(index, mSize)\<close> and
  \<open>begin() + index\<close> are \<open>operator+(int)\<close> of the iterator; \<open>temp.get() + index + 1\<close>,
  \<open>temp.get() + mSize\<close> and \<open>temp.get() + index\<close> are pointer arithmetic with a \<open>size_t\<close>.
\<close>

definition ArrayList_add_at ::
  "nat \<Rightarrow> size_t \<Rightarrow> 'a::default \<Rightarrow> ArrayList \<Rightarrow> 'a aheap \<Rightarrow> (ArrayList \<times> 'a aheap, unit) outcome" where
  "ArrayList_add_at lim index value l h =
     (let newSize = max index (mSize l) + 1;
          newCap = 2 * newSize
      in case new_array lim h newCap of
           None \<Rightarrow> Throws BadArrayNewLength (l, h)
         | Some (temp, h1) \<Rightarrow>
             (case std_copy (ArrayList_begin l)
                     (iter_plus (ArrayList_begin l) (uint (min index (mSize l)))) (temp, 0) h1 of
                None \<Rightarrow> Undefined
              | Some h2 \<Rightarrow>
                  (case (if index < mSize l
                         then std_copy (iter_plus (ArrayList_begin l) (uint index)) (ArrayList_end l)
                                (temp, uint index + 1) h2
                         else fill_range h2 temp (unat (mSize l)) (unat index) default) of
                     None \<Rightarrow> Undefined
                   | Some h3 \<Rightarrow>
                       (case store_at h3 temp (unat index) value of
                          None \<Rightarrow> Undefined
                        | Some h4 \<Rightarrow>
                            (case delete_array h4 (mArray l) of
                               None \<Rightarrow> Undefined
                             | Some h5 \<Rightarrow>
                                 Returns () (l\<lparr>mArray := temp, mSize := newSize, mCapacity := newCap\<rparr>, h5))))))"

text \<open>
  \<open>clear()\<close>: \<open>ArrayList<T> empty; swap(empty);\<close> and then \<open>empty\<close> is destroyed. The
  function is declared \<open>throw ()\<close>: there is no final state if the constructor throws.
\<close>

definition ArrayList_clear :: "nat \<Rightarrow> ArrayList \<Rightarrow> 'a::default aheap \<Rightarrow> (ArrayList \<times> 'a aheap) option" where
  "ArrayList_clear lim l h =
     (case ArrayList_ctor lim 0 default h of
        Returns empty0 h1 \<Rightarrow>
          (let (l', empty1) = ArrayList_swap l empty0 in
           case ArrayList_dtor empty1 h1 of
             None \<Rightarrow> None
           | Some h2 \<Rightarrow> Some (l', h2))
      | _ \<Rightarrow> None)"

text \<open>
  \<open>get(size_t index)\<close>, both forms: \<open>rangeCheck(index); return mArray[index];\<close>.
  \<open>ArrayList_get_ref\<close> is the reference that is returned, \<open>ArrayList_get\<close> the value of
  the element when the reference is read at once.
\<close>

definition ArrayList_get_ref :: "size_t \<Rightarrow> ArrayList \<Rightarrow> 'a aheap \<Rightarrow> (ArrayList \<times> 'a aheap, 'a ref) outcome" where
  "ArrayList_get_ref index l h =
     (case rangeCheck l index of
        Some e \<Rightarrow> Throws e (l, h)
      | None \<Rightarrow>
          (case load_at h (mArray l) (unat index) of
             None \<Rightarrow> Undefined
           | Some x \<Rightarrow> Returns (Slot (mArray l) (unat index)) (l, h)))"

definition ArrayList_get :: "size_t \<Rightarrow> ArrayList \<Rightarrow> 'a aheap \<Rightarrow> (ArrayList \<times> 'a aheap, 'a) outcome" where
  "ArrayList_get index l h =
     (case rangeCheck l index of
        Some e \<Rightarrow> Throws e (l, h)
      | None \<Rightarrow>
          (case load_at h (mArray l) (unat index) of
             None \<Rightarrow> Undefined
           | Some x \<Rightarrow> Returns x (l, h)))"

text \<open>
  \<open>operator==\<close>: \<open>std::equal(begin(), end(), rhs.begin())\<close> is a loop from \<open>begin()\<close>
  until \<open>end()\<close> is met.
\<close>

definition ArrayList_eq :: "ArrayList \<Rightarrow> ArrayList \<Rightarrow> 'a aheap \<Rightarrow> bool option" where
  "ArrayList_eq l rhs h =
     (if mSize l = mSize rhs
      then equal_range h (mArray l) (unat (mSize l)) (mArray rhs)
      else Some False)"

definition ArrayList_isEmpty :: "ArrayList \<Rightarrow> bool" where
  "ArrayList_isEmpty l \<longleftrightarrow> mSize l = 0"

text \<open>
  \<open>remove(size_t index)\<close>. \<open>begin() + index\<close> and \<open>begin() + index + 1\<close> are
  \<open>operator+(int)\<close> of the iterator, \<open>temp.get() + index\<close> is pointer arithmetic.
\<close>

definition ArrayList_remove ::
  "nat \<Rightarrow> size_t \<Rightarrow> ArrayList \<Rightarrow> 'a::default aheap \<Rightarrow> (ArrayList \<times> 'a aheap, 'a) outcome" where
  "ArrayList_remove lim index l h =
     (case rangeCheck l index of
        Some e \<Rightarrow> Throws e (l, h)
      | None \<Rightarrow>
          (case load_at h (mArray l) (unat index) of
             None \<Rightarrow> Undefined
           | Some result \<Rightarrow>
               (case (if index < mSize l - 1 then
                        (case new_array lim h (mCapacity l) of
                           None \<Rightarrow> Throws BadArrayNewLength (l, h)
                         | Some (temp, h1) \<Rightarrow>
                             (case std_copy (ArrayList_begin l) (iter_plus (ArrayList_begin l) (uint index))
                                     (temp, 0) h1 of
                                None \<Rightarrow> Undefined
                              | Some h2 \<Rightarrow>
                                  (case std_copy (iter_plus (iter_plus (ArrayList_begin l) (uint index)) 1)
                                          (ArrayList_end l) (temp, uint index) h2 of
                                     None \<Rightarrow> Undefined
                                   | Some h3 \<Rightarrow>
                                       (case delete_array h3 (mArray l) of
                                          None \<Rightarrow> Undefined
                                        | Some h4 \<Rightarrow> Returns () (l\<lparr>mArray := temp\<rparr>, h4)))))
                      else Returns () (l, h)) of
                  Returns _ (l1, h5) \<Rightarrow> Returns result (l1\<lparr>mSize := mSize l1 - 1\<rparr>, h5)
                | Throws e s \<Rightarrow> Throws e s
                | Undefined \<Rightarrow> Undefined)))"

text \<open>\<open>set(size_t index, const_reference value)\<close>.\<close>

definition ArrayList_set :: "size_t \<Rightarrow> 'a \<Rightarrow> ArrayList \<Rightarrow> 'a aheap \<Rightarrow> (ArrayList \<times> 'a aheap, unit) outcome" where
  "ArrayList_set index value l h =
     (case rangeCheck l index of
        Some e \<Rightarrow> Throws e (l, h)
      | None \<Rightarrow>
          (case store_at h (mArray l) (unat index) value of
             None \<Rightarrow> Undefined
           | Some h1 \<Rightarrow> Returns () (l, h1)))"

definition ArrayList_size :: "ArrayList \<Rightarrow> size_t" where
  "ArrayList_size l = mSize l"

subsection \<open>Arithmetic on \<open>size_t\<close>\<close>

lemma unat_size_t_less: "unat (w::size_t) < 18446744073709551616"
  using unsigned_less [of w] by simp

lemma unat_Suc_less: "unat (i::size_t) < unat (index::size_t) \<Longrightarrow> unat (i + 1) = Suc (unat i)"
  using unat_size_t_less [of index] by (simp add: unat_word_ariths)

section \<open>LinkedList\<close>

text \<open>
  \<open>T mItem; LinkedListNode<T>* mPrev; LinkedListNode<T>* mNext;\<close> (include/LinkedList.h).
\<close>

record 'a LinkedListNode =
  mItem :: 'a
  mPrev :: addr
  mNext :: addr

type_synonym 'a nheap = "'a LinkedListNode heap"

text \<open>
  \<open>size_t mSize; std::auto_ptr<LinkedListNode<T> > mTail;\<close>. The field \<open>mSize\<close> of
  this class is \<open>mSize_L\<close> here: \<open>mSize\<close> names the field of ArrayList.
\<close>

record LinkedList =
  mSize_L :: size_t
  mTail :: addr

text \<open>\<open>LinkedListNode<T>::link(first, second)\<close>: two writes, in this order.\<close>

definition link :: "'a nheap \<Rightarrow> addr \<Rightarrow> addr \<Rightarrow> 'a nheap option" where
  "link h first second =
     (case cell h first of
        None \<Rightarrow> None
      | Some n \<Rightarrow>
          let h1 = h[first := Some (n\<lparr>mNext := second\<rparr>)] in
          (case cell h1 second of
             None \<Rightarrow> None
           | Some m \<Rightarrow> Some (h1[second := Some (m\<lparr>mPrev := first\<rparr>)])))"

text \<open>\<open>new LinkedListNode<T>(item)\<close>: \<open>mPrev\<close> and \<open>mNext\<close> are \<open>this\<close>.\<close>

definition new_node :: "'a nheap \<Rightarrow> 'a \<Rightarrow> addr \<times> 'a nheap" where
  "new_node h item = alloc h \<lparr>mItem = item, mPrev = length h, mNext = length h\<rparr>"

text \<open>\<open>new LinkedListNode<T>(item, prev, next)\<close>.\<close>

definition new_node_between :: "'a nheap \<Rightarrow> 'a \<Rightarrow> addr \<Rightarrow> addr \<Rightarrow> (addr \<times> 'a nheap) option" where
  "new_node_between h item prev next =
     (let (this, h1) = alloc h \<lparr>mItem = item, mPrev = prev, mNext = next\<rparr> in
      case link h1 prev this of
        None \<Rightarrow> None
      | Some h2 \<Rightarrow>
          (case link h2 this next of
             None \<Rightarrow> None
           | Some h3 \<Rightarrow> Some (this, h3)))"

text \<open>\<open>delete node\<close>: the destructor \<open>link(mPrev, mNext)\<close>, then the storage is released.\<close>

definition delete_node :: "'a nheap \<Rightarrow> addr \<Rightarrow> 'a nheap option" where
  "delete_node h this =
     (case cell h this of
        None \<Rightarrow> None
      | Some n \<Rightarrow>
          (case link h (mPrev n) (mNext n) of
             None \<Rightarrow> None
           | Some h1 \<Rightarrow> free h1 this))"

text \<open>
  \<open>std::advance(iter, n)\<close> on a forward iterator: \<open>++iter\<close>, that is
  \<open>mPtr = mPtr->mNext\<close>, \<open>n\<close> times.
\<close>

primrec advance :: "'a nheap \<Rightarrow> addr \<Rightarrow> nat \<Rightarrow> addr option" where
  "advance h p 0 = Some p"
| "advance h p (Suc n) =
     (case cell h p of
        None \<Rightarrow> None
      | Some nd \<Rightarrow> advance h (mNext nd) n)"

text \<open>\<open>LinkedList()\<close>.\<close>

definition LinkedList_ctor :: "'a::default nheap \<Rightarrow> LinkedList \<times> 'a nheap" where
  "LinkedList_ctor h = (let (t, h1) = new_node h default in (\<lparr>mSize_L = 0, mTail = t\<rparr>, h1))"

text \<open>\<open>begin()\<close> is an iterator at \<open>mTail->mNext\<close>, \<open>end()\<close> one at \<open>mTail\<close>.\<close>

definition LinkedList_begin :: "LinkedList \<Rightarrow> 'a nheap \<Rightarrow> addr option" where
  "LinkedList_begin l h = map_option mNext (cell h (mTail l))"

definition LinkedList_size :: "LinkedList \<Rightarrow> size_t" where
  "LinkedList_size l = mSize_L l"

definition LinkedList_isEmpty :: "LinkedList \<Rightarrow> bool" where
  "LinkedList_isEmpty l \<longleftrightarrow> mSize_L l = 0"

text \<open>\<open>swap(other)\<close>: the pair is (this, other) afterwards.\<close>

definition LinkedList_swap :: "LinkedList \<Rightarrow> LinkedList \<Rightarrow> LinkedList \<times> LinkedList" where
  "LinkedList_swap l other =
     (l\<lparr>mSize_L := mSize_L other, mTail := mTail other\<rparr>,
      other\<lparr>mSize_L := mSize_L l, mTail := mTail l\<rparr>)"

text \<open>\<open>removeNode(iter)\<close>.\<close>

definition removeNode :: "addr \<Rightarrow> LinkedList \<Rightarrow> 'a nheap \<Rightarrow> (LinkedList \<times> 'a nheap) option" where
  "removeNode iter l h =
     (case delete_node h iter of
        None \<Rightarrow> None
      | Some h1 \<Rightarrow> Some (l\<lparr>mSize_L := mSize_L l - 1\<rparr>, h1))"

text \<open>
  \<open>~LinkedList()\<close>: \<open>while (!isEmpty()) removeNode(begin());\<close> and then the member
  \<open>mTail\<close> deletes the dummy node.
\<close>

function dtor_loop :: "LinkedList \<Rightarrow> 'a nheap \<Rightarrow> (LinkedList \<times> 'a nheap) option" where
  "dtor_loop l h =
     (if \<not> LinkedList_isEmpty l then
        (case LinkedList_begin l h of
           None \<Rightarrow> None
         | Some b \<Rightarrow>
             (case removeNode b l h of
                None \<Rightarrow> None
              | Some (l1, h1) \<Rightarrow> dtor_loop l1 h1))
      else Some (l, h))"
  by pat_completeness auto
termination
proof (relation "measure (\<lambda>(l, h). unat (mSize_L l))")
  show "wf (measure (\<lambda>(l, h). unat (mSize_L l)))"
    by simp
next
  fix l :: LinkedList and h :: "'a nheap" and b x l1 h1
  assume "\<not> LinkedList_isEmpty l" and "removeNode b l h = Some x" and "(l1, h1) = x"
  then show "((l1, h1), (l, h)) \<in> measure (\<lambda>(l, h). unat (mSize_L l))"
    by (auto simp: removeNode_def LinkedList_isEmpty_def unat_minus_one unat_gt_0
        split: option.splits)
qed

definition LinkedList_dtor :: "LinkedList \<Rightarrow> 'a nheap \<Rightarrow> 'a nheap option" where
  "LinkedList_dtor l h =
     (case dtor_loop l h of
        None \<Rightarrow> None
      | Some (l1, h1) \<Rightarrow> delete_node h1 (mTail l1))"

text \<open>\<open>add(const_reference value)\<close>.\<close>

definition LinkedList_add :: "'a \<Rightarrow> LinkedList \<Rightarrow> 'a nheap \<Rightarrow> (LinkedList \<times> 'a nheap) option" where
  "LinkedList_add value l h =
     (case cell h (mTail l) of
        None \<Rightarrow> None
      | Some t \<Rightarrow>
          (case new_node_between h value (mPrev t) (mTail l) of
             None \<Rightarrow> None
           | Some (a, h1) \<Rightarrow> Some (l\<lparr>mSize_L := mSize_L l + 1\<rparr>, h1)))"

text \<open>
  The loop of \<open>add(size_t index, const_reference value)\<close>:
  \<open>for (size_t i = size(); i < index; ++i) temp.add(value_type());\<close>
\<close>

function fill_gap :: "size_t \<Rightarrow> size_t \<Rightarrow> LinkedList \<Rightarrow> 'a::default nheap \<Rightarrow> (LinkedList \<times> 'a nheap) option" where
  "fill_gap i index temp h =
     (if i < index then
        (case LinkedList_add default temp h of
           None \<Rightarrow> None
         | Some (temp1, h1) \<Rightarrow> fill_gap (i + 1) index temp1 h1)
      else Some (temp, h))"
  by pat_completeness auto
termination
  by (relation "measure (\<lambda>(i, index, temp, h). unat index - unat i)")
    (simp_all add: word_less_nat_alt unat_Suc_less)

text \<open>
  \<open>add(size_t index, const_reference value)\<close>. The second branch ends with the
  destructor of \<open>temp\<close>.
\<close>

definition LinkedList_add_at ::
  "size_t \<Rightarrow> 'a::default \<Rightarrow> LinkedList \<Rightarrow> 'a nheap \<Rightarrow> (LinkedList \<times> 'a nheap) option" where
  "LinkedList_add_at index value l h =
     (if index < mSize_L l then
        (case LinkedList_begin l h of
           None \<Rightarrow> None
         | Some b \<Rightarrow>
             (case advance h b (unat index) of
                None \<Rightarrow> None
              | Some iter \<Rightarrow>
                  (case cell h iter of
                     None \<Rightarrow> None
                   | Some nd \<Rightarrow>
                       (case new_node_between h value (mPrev nd) iter of
                          None \<Rightarrow> None
                        | Some (a, h1) \<Rightarrow> Some (l\<lparr>mSize_L := mSize_L l + 1\<rparr>, h1)))))
      else
        (let (temp, h1) = LinkedList_ctor h in
         case fill_gap (LinkedList_size l) index temp h1 of
           None \<Rightarrow> None
         | Some (temp1, h2) \<Rightarrow>
             (case LinkedList_add value temp1 h2 of
                None \<Rightarrow> None
              | Some (temp2, h3) \<Rightarrow>
                  (case (cell h3 (mTail l), cell h3 (mTail temp2)) of
                     (Some t, Some tt) \<Rightarrow>
                       let curLast = mPrev t; tempFirst = mNext tt; tempLast = mPrev tt in
                       (case link h3 curLast tempFirst of
                          None \<Rightarrow> None
                        | Some h4 \<Rightarrow>
                            (case link h4 tempLast (mTail l) of
                               None \<Rightarrow> None
                             | Some h5 \<Rightarrow>
                                 (case link h5 (mTail temp2) (mTail temp2) of
                                    None \<Rightarrow> None
                                  | Some h6 \<Rightarrow>
                                      (case LinkedList_dtor (temp2\<lparr>mSize_L := 0\<rparr>) h6 of
                                         None \<Rightarrow> None
                                       | Some h7 \<Rightarrow> Some (l\<lparr>mSize_L := index + 1\<rparr>, h7)))))
                   | _ \<Rightarrow> None))))"

text \<open>\<open>clear()\<close>: \<open>LinkedList<T> empty; swap(empty);\<close> and then \<open>empty\<close> is destroyed.\<close>

definition LinkedList_clear :: "LinkedList \<Rightarrow> 'a::default nheap \<Rightarrow> (LinkedList \<times> 'a nheap) option" where
  "LinkedList_clear l h =
     (let (empty0, h1) = LinkedList_ctor h;
          (l', empty1) = LinkedList_swap l empty0
      in case LinkedList_dtor empty1 h1 of
           None \<Rightarrow> None
         | Some h2 \<Rightarrow> Some (l', h2))"

text \<open>\<open>rangeCheck(index)\<close>.\<close>

definition LinkedList_rangeCheck :: "LinkedList \<Rightarrow> size_t \<Rightarrow> error option" where
  "LinkedList_rangeCheck l index = (if index \<ge> mSize_L l then Some (OutOfRange index) else None)"

text \<open>\<open>get(size_t index)\<close>, both forms.\<close>

definition LinkedList_get :: "size_t \<Rightarrow> LinkedList \<Rightarrow> 'a nheap \<Rightarrow> (LinkedList \<times> 'a nheap, 'a) outcome" where
  "LinkedList_get index l h =
     (case LinkedList_rangeCheck l index of
        Some e \<Rightarrow> Throws e (l, h)
      | None \<Rightarrow>
          (case LinkedList_begin l h of
             None \<Rightarrow> Undefined
           | Some b \<Rightarrow>
               (case advance h b (unat index) of
                  None \<Rightarrow> Undefined
                | Some iter \<Rightarrow>
                    (case cell h iter of
                       None \<Rightarrow> Undefined
                     | Some nd \<Rightarrow> Returns (mItem nd) (l, h)))))"

text \<open>\<open>remove(size_t index)\<close>.\<close>

definition LinkedList_remove :: "size_t \<Rightarrow> LinkedList \<Rightarrow> 'a nheap \<Rightarrow> (LinkedList \<times> 'a nheap, unit) outcome" where
  "LinkedList_remove index l h =
     (case LinkedList_rangeCheck l index of
        Some e \<Rightarrow> Throws e (l, h)
      | None \<Rightarrow>
          (case LinkedList_begin l h of
             None \<Rightarrow> Undefined
           | Some b \<Rightarrow>
               (case advance h b (unat index) of
                  None \<Rightarrow> Undefined
                | Some iter \<Rightarrow>
                    (case removeNode iter l h of
                       None \<Rightarrow> Undefined
                     | Some s \<Rightarrow> Returns () s))))"

text \<open>\<open>set(size_t index, const_reference value)\<close>.\<close>

definition LinkedList_set :: "size_t \<Rightarrow> 'a \<Rightarrow> LinkedList \<Rightarrow> 'a nheap \<Rightarrow> (LinkedList \<times> 'a nheap, unit) outcome" where
  "LinkedList_set index value l h =
     (case LinkedList_rangeCheck l index of
        Some e \<Rightarrow> Throws e (l, h)
      | None \<Rightarrow>
          (case LinkedList_begin l h of
             None \<Rightarrow> Undefined
           | Some b \<Rightarrow>
               (case advance h b (unat index) of
                  None \<Rightarrow> Undefined
                | Some oldNode \<Rightarrow>
                    (case cell h oldNode of
                       None \<Rightarrow> Undefined
                     | Some nd \<Rightarrow>
                         (case new_node_between h value (mPrev nd) (mNext nd) of
                            None \<Rightarrow> Undefined
                          | Some (a, h1) \<Rightarrow>
                              (case link h1 oldNode oldNode of
                                 None \<Rightarrow> Undefined
                               | Some h2 \<Rightarrow>
                                   (case delete_node h2 oldNode of
                                      None \<Rightarrow> Undefined
                                    | Some h3 \<Rightarrow> Returns () (l, h3))))))))"

text \<open>
  The loop of the copy constructor:
  \<open>for (const_iterator iter = src.begin(); iter != src.end(); ++iter) temp.add(*iter);\<close>
  It ends when the iterator reaches \<open>stop\<close>, which a chain that never comes back to
  \<open>stop\<close> does not allow: the outer \<open>None\<close> is a loop that does not end, \<open>Some None\<close> is
  undefined behaviour.
\<close>

partial_function (option) copy_loop ::
  "addr \<Rightarrow> addr \<Rightarrow> LinkedList \<Rightarrow> 'a nheap \<Rightarrow> (LinkedList \<times> 'a nheap) option option" where
  "copy_loop iter stop temp h =
     (if iter \<noteq> stop then
        (case cell h iter of
           None \<Rightarrow> Some None
         | Some nd \<Rightarrow>
             (case LinkedList_add (mItem nd) temp h of
                None \<Rightarrow> Some None
              | Some (temp1, h1) \<Rightarrow>
                  (case cell h1 iter of
                     None \<Rightarrow> Some None
                   | Some nd1 \<Rightarrow> copy_loop (mNext nd1) stop temp1 h1)))
      else Some (Some (temp, h)))"

text \<open>
  \<open>LinkedList(const LinkedList<T>& src)\<close>: the members are initialised (a dummy node of
  its own), \<open>temp\<close> is built and filled, \<open>swap(temp)\<close>, and \<open>temp\<close> is destroyed.
\<close>

definition LinkedList_copy_ctor :: "LinkedList \<Rightarrow> 'a::default nheap \<Rightarrow> (LinkedList \<times> 'a nheap) option option" where
  "LinkedList_copy_ctor src h =
     (let (this0, h1) = LinkedList_ctor h;
          (temp, h2) = LinkedList_ctor h1
      in case LinkedList_begin src h2 of
           None \<Rightarrow> Some None
         | Some b \<Rightarrow>
             (case copy_loop b (mTail src) temp h2 of
                None \<Rightarrow> None
              | Some None \<Rightarrow> Some None
              | Some (Some (temp1, h3)) \<Rightarrow>
                  let (this1, temp2) = LinkedList_swap this0 temp1 in
                  (case LinkedList_dtor temp2 h3 of
                     None \<Rightarrow> Some None
                   | Some h4 \<Rightarrow> Some (Some (this1, h4)))))"

text \<open>\<open>operator=\<close>; \<open>this != &rhs\<close> compares the addresses of the two objects.\<close>

definition LinkedList_assign ::
  "addr \<times> LinkedList \<Rightarrow> addr \<times> LinkedList \<Rightarrow> 'a::default nheap \<Rightarrow> (LinkedList \<times> 'a nheap) option option" where
  "LinkedList_assign this rhs h =
     (if fst this \<noteq> fst rhs then
        (case LinkedList_copy_ctor (snd rhs) h of
           None \<Rightarrow> None
         | Some None \<Rightarrow> Some None
         | Some (Some (copy, h1)) \<Rightarrow>
             let (l', copy') = LinkedList_swap (snd this) copy in
             (case LinkedList_dtor copy' h1 of
                None \<Rightarrow> Some None
              | Some h2 \<Rightarrow> Some (Some (l', h2))))
      else Some (Some (snd this, h)))"

text \<open>
  \<open>std::equal(first1, last1, first2)\<close> over list iterators, and \<open>operator==\<close>. As for
  the copy loop, the outer \<open>None\<close> is a loop that does not end.
\<close>

partial_function (option) equal_loop :: "addr \<Rightarrow> addr \<Rightarrow> addr \<Rightarrow> 'a nheap \<Rightarrow> bool option option" where
  "equal_loop first1 last1 first2 h =
     (if first1 \<noteq> last1 then
        (case (cell h first1, cell h first2) of
           (Some n1, Some n2) \<Rightarrow>
             if mItem n1 = mItem n2 then equal_loop (mNext n1) last1 (mNext n2) h
             else Some (Some False)
         | _ \<Rightarrow> Some None)
      else Some (Some True))"

definition LinkedList_eq :: "LinkedList \<Rightarrow> LinkedList \<Rightarrow> 'a nheap \<Rightarrow> bool option option" where
  "LinkedList_eq l rhs h =
     (if mSize_L l = mSize_L rhs then
        (case (LinkedList_begin l h, LinkedList_begin rhs h) of
           (Some b1, Some b2) \<Rightarrow> equal_loop b1 (mTail l) b2 h
         | _ \<Rightarrow> Some None)
      else Some (Some False))"

section \<open>Clients of the LinkedList: the mutating calls\<close>

text \<open>
  The calls that change a list: \<open>add(value)\<close>, \<open>add(index, value)\<close>,
  \<open>set(index, value)\<close>, \<open>remove(index)\<close> and \<open>clear()\<close>.
\<close>

datatype 'a mutation = Add 'a | AddAt size_t 'a | Set size_t 'a | Remove size_t | Clear

text \<open>
  The state in which a call leaves the program, whether it returns or throws (the
  caller catches the exception).
\<close>

definition caught :: "('s, 'r) outcome \<Rightarrow> 's option" where
  "caught out = (case out of Returns _ s \<Rightarrow> Some s | Throws _ s \<Rightarrow> Some s | Undefined \<Rightarrow> None)"

fun LinkedList_mutate ::
  "'a::default mutation \<Rightarrow> LinkedList \<Rightarrow> 'a nheap \<Rightarrow> (LinkedList \<times> 'a nheap) option" where
  "LinkedList_mutate (Add v) l h = LinkedList_add v l h"
| "LinkedList_mutate (AddAt i v) l h = LinkedList_add_at i v l h"
| "LinkedList_mutate (Set i v) l h = caught (LinkedList_set i v l h)"
| "LinkedList_mutate (Remove i) l h = caught (LinkedList_remove i l h)"
| "LinkedList_mutate Clear l h = LinkedList_clear l h"

text \<open>
  A call fits a list when the size that it computes is a \<open>size_t\<close> value. (A call that
  does not fit needs a list of \<open>2^64 - 1\<close> nodes, or has to allocate that many.)
\<close>

fun LinkedList_fits :: "'a mutation \<Rightarrow> LinkedList \<Rightarrow> bool" where
  "LinkedList_fits (Add v) l \<longleftrightarrow> unat (mSize_L l) + 1 < (2::nat) ^ 64"
| "LinkedList_fits (AddAt i v) l \<longleftrightarrow> max (unat i) (unat (mSize_L l)) + 1 < (2::nat) ^ 64"
| "LinkedList_fits (Set i v) l \<longleftrightarrow> True"
| "LinkedList_fits (Remove i) l \<longleftrightarrow> True"
| "LinkedList_fits Clear l \<longleftrightarrow> True"

text \<open>
  A program that holds two lists \<open>s\<close> and \<open>t\<close> and makes one mutating call on one of
  them.
\<close>

inductive LinkedList_step ::
  "(LinkedList \<times> LinkedList) \<times> 'a::default nheap \<Rightarrow> (LinkedList \<times> LinkedList) \<times> 'a nheap \<Rightarrow> bool" where
  LinkedList_on_s: "LinkedList_fits m s \<Longrightarrow> LinkedList_mutate m s h = Some (s', h') \<Longrightarrow>
     LinkedList_step ((s, t), h) ((s', t), h')"
| LinkedList_on_t: "LinkedList_fits m t \<Longrightarrow> LinkedList_mutate m t h = Some (t', h') \<Longrightarrow>
     LinkedList_step ((s, t), h) ((s, t'), h')"

section \<open>The adapters\<close>

text \<open>
  \<open>StackAdapter<Container>\<close> and \<open>QueueAdapter<Container>\<close> hold one member,
  \<open>Container mContainer\<close>. What the headers (include/StackAdapter.h,
  include/QueueAdapter.h) ask of the type \<open>Container\<close> is \<open>add(value_type)\<close>,
  \<open>get(size_t)\<close>, \<open>remove(size_t)\<close> and \<open>size()\<close>: a record of these four operations
  stands for it. \<open>'c\<close> is the container object, \<open>'h\<close> the heap, \<open>'a\<close> the element type
  and \<open>'r\<close> what \<open>remove\<close> returns. \<open>add\<close> takes a reference and \<open>get\<close> returns one, as
  the two containers have it.
\<close>

record ('c, 'h, 'a, 'r) Container =
  c_add :: "'a ref \<Rightarrow> 'c \<Rightarrow> 'h \<Rightarrow> ('c \<times> 'h, unit) outcome"
  c_get :: "size_t \<Rightarrow> 'c \<Rightarrow> 'h \<Rightarrow> ('c \<times> 'h, 'a ref) outcome"
  c_remove :: "size_t \<Rightarrow> 'c \<Rightarrow> 'h \<Rightarrow> ('c \<times> 'h, 'r) outcome"
  c_size :: "'c \<Rightarrow> size_t"


text \<open>A call whose result is not used.\<close>

definition discard :: "('s, 'r) outcome \<Rightarrow> ('s, unit) outcome" where
  "discard out = (case out of Returns _ s \<Rightarrow> Returns () s | Throws e s \<Rightarrow> Throws e s | Undefined \<Rightarrow> Undefined)"

text \<open>
  Modelled from the spec: \<open>StackAdapter::size\<close> (src/src/StackAdapter.cpp is not among the
  sources, only the declarations in include/StackAdapter.h are). The specification has
  \<open>size\<close> as a pass-through to the container.
\<close>

definition StackAdapter_size :: "('c, 'h, 'a, 'r) Container \<Rightarrow> 'c \<Rightarrow> size_t" where
  "StackAdapter_size C l = c_size C l"

text \<open>
  Modelled from the spec: \<open>StackBase::isEmpty\<close> (src/src/StackBase.cpp is not among the
  sources). The specification has \<open>isEmpty\<close> as a pass-through: the stack is empty when its
  size is 0.
\<close>

definition StackBase_isEmpty :: "('c, 'h, 'a, 'r) Container \<Rightarrow> 'c \<Rightarrow> bool" where
  "StackBase_isEmpty C l \<longleftrightarrow> StackAdapter_size C l = 0"


text \<open>
  Modelled from the spec: \<open>StackAdapter::pop\<close> (src/src/StackAdapter.cpp is not among the
  sources). The specification has \<open>pop\<close> check emptiness itself and raise Underflow on an
  empty stack, and otherwise operate on index \<open>size() - 1\<close>.
\<close>

definition StackAdapter_pop :: "('c, 'h, 'a, 'r) Container \<Rightarrow> 'c \<Rightarrow> 'h \<Rightarrow> ('c \<times> 'h, unit) outcome" where
  "StackAdapter_pop C l h =
     (if StackBase_isEmpty C l then Throws Underflow (l, h)
      else discard (c_remove C (StackAdapter_size C l - 1) l h))"

text \<open>
  Modelled from the spec: \<open>StackAdapter::top\<close> (src/src/StackAdapter.cpp is not among the
  sources). The specification has \<open>top\<close> check emptiness itself and raise Underflow on an
  empty stack, and otherwise operate on index \<open>size() - 1\<close>; the declaration returns the
  reference \<open>const value_type&\<close>.
\<close>

definition StackAdapter_top :: "('c, 'h, 'a, 'r) Container \<Rightarrow> 'c \<Rightarrow> 'h \<Rightarrow> ('c \<times> 'h, 'a ref) outcome" where
  "StackAdapter_top C l h =
     (if StackBase_isEmpty C l then Throws Underflow (l, h)
      else c_get C (StackAdapter_size C l - 1) l h)"

text \<open>
  Modelled from the spec: \<open>QueueAdapter::size\<close> (src/src/QueueAdapter.cpp is not among the
  sources). The specification has \<open>size\<close> as a pass-through to the container.
\<close>

definition QueueAdapter_size :: "('c, 'h, 'a, 'r) Container \<Rightarrow> 'c \<Rightarrow> size_t" where
  "QueueAdapter_size C l = c_size C l"

text \<open>
  Modelled from the spec: \<open>QueueBase::isEmpty\<close> (src/src/QueueBase.cpp is not among the
  sources). The specification has \<open>isEmpty\<close> as a pass-through: the queue is empty when its
  size is 0.
\<close>

definition QueueBase_isEmpty :: "('c, 'h, 'a, 'r) Container \<Rightarrow> 'c \<Rightarrow> bool" where
  "QueueBase_isEmpty C l \<longleftrightarrow> QueueAdapter_size C l = 0"

text \<open>
  Modelled from the spec: \<open>QueueAdapter::enqueue\<close> (src/src/QueueAdapter.cpp is not among
  the sources). The specification has \<open>enqueue\<close> append at the tail.
\<close>

definition QueueAdapter_enqueue ::
  "('c, 'h, 'a, 'r) Container \<Rightarrow> 'a ref \<Rightarrow> 'c \<Rightarrow> 'h \<Rightarrow> ('c \<times> 'h, unit) outcome" where
  "QueueAdapter_enqueue C value l h = c_add C value l h"

text \<open>
  Modelled from the spec: \<open>QueueAdapter::dequeue\<close> (src/src/QueueAdapter.cpp is not among
  the sources). The specification has \<open>dequeue\<close> check emptiness itself and raise Underflow
  on an empty queue, and otherwise operate on index 0.
\<close>

definition QueueAdapter_dequeue :: "('c, 'h, 'a, 'r) Container \<Rightarrow> 'c \<Rightarrow> 'h \<Rightarrow> ('c \<times> 'h, unit) outcome" where
  "QueueAdapter_dequeue C l h =
     (if QueueBase_isEmpty C l then Throws Underflow (l, h)
      else discard (c_remove C 0 l h))"

text \<open>
  Modelled from the spec: \<open>QueueAdapter::front\<close> (src/src/QueueAdapter.cpp is not among the
  sources). The specification has \<open>front\<close> check emptiness itself and raise Underflow on an
  empty queue, and otherwise operate on index 0.
\<close>

definition QueueAdapter_front :: "('c, 'h, 'a, 'r) Container \<Rightarrow> 'c \<Rightarrow> 'h \<Rightarrow> ('c \<times> 'h, 'a ref) outcome" where
  "QueueAdapter_front C l h =
     (if QueueBase_isEmpty C l then Throws Underflow (l, h)
      else c_get C 0 l h)"

text \<open>
  On an empty adapter the four operations throw Underflow, whatever the container is:
  the container is not called.
\<close>

lemma adapter_underflow:
  assumes "StackBase_isEmpty C s" and "QueueBase_isEmpty D q"
  shows "StackAdapter_pop C s h = Throws Underflow (s, h)"
    and "StackAdapter_top C s h = Throws Underflow (s, h)"
    and "QueueAdapter_dequeue D q k = Throws Underflow (q, k)"
    and "QueueAdapter_front D q k = Throws Underflow (q, k)"
  using assms
  by (simp_all add: StackAdapter_pop_def StackAdapter_top_def QueueAdapter_dequeue_def QueueAdapter_front_def)

section \<open>Properties of ArrayList\<close>

text \<open>
  An ArrayList is well formed in a heap when its buffer is allocated there with
  \<open>mCapacity\<close> slots and \<open>mSize \<le> mCapacity\<close>; its elements are the first \<open>mSize\<close>
  slots of the buffer.
\<close>

definition ArrayList_wf :: "'a aheap \<Rightarrow> ArrayList \<Rightarrow> bool" where
  "ArrayList_wf h l = (case cell h (mArray l) of
       None \<Rightarrow> False
     | Some buf \<Rightarrow> length buf = unat (mCapacity l) \<and> mSize l \<le> mCapacity l)"

definition ArrayList_elems :: "'a aheap \<Rightarrow> ArrayList \<Rightarrow> 'a list" where
  "ArrayList_elems h l = (case cell h (mArray l) of
       None \<Rightarrow> []
     | Some buf \<Rightarrow> take (unat (mSize l)) buf)"

lemma cell_alloc: "cell (h @ [x]) a = (if a = length h then x else cell h a)"
  by (auto simp: cell_def nth_append)

lemma cell_update: "cell (h[a := x]) b = (if b = a \<and> a < length h then x else cell h b)"
  by (auto simp: cell_def)

lemma cell_Some_less: "cell h a = Some x \<Longrightarrow> a < length h"
  by (auto simp: cell_def split: if_splits)

lemma cell_length: "cell h (length h) = None"
  by (simp add: cell_def)

lemma wfD:
  assumes "ArrayList_wf h l"
  obtains buf where "cell h (mArray l) = Some buf" "length buf = unat (mCapacity l)"
    "unat (mSize l) \<le> unat (mCapacity l)" "mArray l < length h" "ArrayList_elems h l = take (unat (mSize l)) buf"
  using assms by (auto simp: ArrayList_wf_def ArrayList_elems_def word_le_nat_alt dest: cell_Some_less split: option.splits)

lemma unat_double_plus2: "unat (s::size_t) < 2^63 - 1 \<Longrightarrow> unat (2 * s + 2) = 2 * unat s + 2"
  by (simp add: unat_word_ariths)

lemma unat_plus1: "unat (s::size_t) < 2^64 - 1 \<Longrightarrow> unat (s + 1) = unat s + 1"
  by (simp add: unat_word_ariths)

text \<open>
  \<open>unchanged_outside h h' A\<close>: from \<open>h\<close> to \<open>h'\<close> no cell was taken away, and the cells
  of \<open>h\<close> that are not in \<open>A\<close> are as they were.
\<close>

definition unchanged_outside :: "'o heap \<Rightarrow> 'o heap \<Rightarrow> addr set \<Rightarrow> bool" where
  "unchanged_outside h h' A \<longleftrightarrow>
     length h \<le> length h' \<and> (\<forall>a. a < length h \<longrightarrow> a \<notin> A \<longrightarrow> cell h' a = cell h a)"

lemmas al_prims = new_array_def alloc_def fill_range_def delete_array_def free_def
  store_at_def load_at_def equal_range_def cell_alloc cell_update Let_def

lemma ArrayList_get_ok:
  assumes wf: "ArrayList_wf h l" and i: "index < mSize l"
  shows "ArrayList_get index l h = Returns (ArrayList_elems h l ! unat index) (l, h)"
proof -
  from wf obtain buf where b: "cell h (mArray l) = Some buf" "length buf = unat (mCapacity l)"
    "unat (mSize l) \<le> unat (mCapacity l)" "ArrayList_elems h l = take (unat (mSize l)) buf"
    by (rule wfD)
  show ?thesis using b i
    by (auto simp: ArrayList_get_def rangeCheck_def al_prims word_less_nat_alt word_le_nat_alt)
qed

lemma ArrayList_get_throws:
  "mSize l \<le> index \<Longrightarrow> ArrayList_get index l h = Throws (OutOfRange index) (l, h)"
  by (simp add: ArrayList_get_def rangeCheck_def)

lemma ArrayList_set_throws:
  "mSize l \<le> index \<Longrightarrow> ArrayList_set index v l h = Throws (OutOfRange index) (l, h)"
  by (simp add: ArrayList_set_def rangeCheck_def)

lemma ArrayList_remove_throws:
  "mSize l \<le> index \<Longrightarrow> ArrayList_remove lim index l h = Throws (OutOfRange index) (l, h)"
  by (simp add: ArrayList_remove_def rangeCheck_def)

lemma ArrayList_set_ok:
  assumes wf: "ArrayList_wf h l" and i: "index < mSize l"
  shows "\<exists>h'. ArrayList_set index v l h = Returns () (l, h') \<and> ArrayList_wf h' l \<and>
           ArrayList_elems h' l = (ArrayList_elems h l)[unat index := v] \<and> length h' = length h \<and>
           unchanged_outside h h' {mArray l}"
proof -
  from wf obtain buf where b: "cell h (mArray l) = Some buf" "length buf = unat (mCapacity l)"
    "unat (mSize l) \<le> unat (mCapacity l)" "ArrayList_elems h l = take (unat (mSize l)) buf" "mArray l < length h"
    by (rule wfD)
  show ?thesis using b i
    by (auto simp: ArrayList_set_def rangeCheck_def al_prims word_less_nat_alt word_le_nat_alt
        ArrayList_wf_def ArrayList_elems_def unchanged_outside_def take_update_swap)
qed


lemma ArrayList_clear_ok:
  assumes wf: "ArrayList_wf h l"
  shows "ArrayList_clear lim l h =
           Some (\<lparr>mSize = 0, mCapacity = 0, mArray = length h\<rparr>, (h @ [Some []])[mArray l := None])"
proof -
  from wf obtain buf where b: "cell h (mArray l) = Some buf" "mArray l < length h"
    by (rule wfD)
  then show ?thesis
    by (auto simp: ArrayList_clear_def ArrayList_ctor_def ArrayList_swap_def ArrayList_dtor_def al_prims)
qed

lemma ArrayList_eq_ok:
  assumes "ArrayList_wf h l" and "ArrayList_wf h r"
  shows "ArrayList_eq l r h = Some (ArrayList_elems h l = ArrayList_elems h r)"
proof -
  from assms(1) obtain buf where b: "cell h (mArray l) = Some buf"
    "unat (mSize l) \<le> unat (mCapacity l)" "length buf = unat (mCapacity l)"
    "ArrayList_elems h l = take (unat (mSize l)) buf"
    by (rule wfD)
  from assms(2) obtain buf' where b': "cell h (mArray r) = Some buf'"
    "unat (mSize r) \<le> unat (mCapacity r)" "length buf' = unat (mCapacity r)"
    "ArrayList_elems h r = take (unat (mSize r)) buf'"
    by (rule wfD)
  show ?thesis
  proof (cases "mSize l = mSize r")
    case True
    with b b' show ?thesis by (simp add: ArrayList_eq_def al_prims)
  next
    case False
    then have "unat (mSize l) \<noteq> unat (mSize r)" by (simp add: word_unat_eq_iff)
    then have "length (ArrayList_elems h l) \<noteq> length (ArrayList_elems h r)" using b b' by simp
    then have "ArrayList_elems h l \<noteq> ArrayList_elems h r" by auto
    with False show ?thesis by (simp add: ArrayList_eq_def)
  qed
qed


lemma ArrayList_wf_less: "ArrayList_wf h l \<Longrightarrow> mArray l < length h"
  by (erule wfD)

lemma ArrayList_ctor_empty:
  "ArrayList_ctor lim 0 v h = Returns \<lparr>mSize = 0, mCapacity = 0, mArray = length h\<rparr> (h @ [Some []])"
  by (simp add: ArrayList_ctor_def al_prims)

lemma ArrayList_clear_wf:
  assumes wf: "ArrayList_wf h l"
  shows "\<exists>l' h' h0. ArrayList_clear lim l h = Some (l', h') \<and> ArrayList_wf h' l' \<and>
           ArrayList_ctor lim 0 default h = Returns l' h0 \<and> cell h' (mArray l') = cell h0 (mArray l') \<and>
           mSize l' = 0 \<and> mCapacity l' = 0 \<and> ArrayList_elems h' l' = [] \<and> mArray l' = length h \<and>
           cell h' (mArray l) = None \<and> unchanged_outside h h' {mArray l}"
proof -
  from wf have lt: "mArray l < length h" by (rule ArrayList_wf_less)
  let ?l = "\<lparr>mSize = 0, mCapacity = 0, mArray = length h\<rparr>"
  let ?h = "(h @ [Some []])[mArray l := None]"
  have c: "ArrayList_clear lim l h = Some (?l, ?h)"
    using wf by (rule ArrayList_clear_ok)
  have n: "cell ?h (length h) = Some []"
    using lt by (simp add: cell_update cell_alloc)
  have "ArrayList_wf ?h ?l"
    by (simp add: ArrayList_wf_def n)
  moreover have "ArrayList_elems ?h ?l = []"
    by (simp add: ArrayList_elems_def n)
  moreover have "cell ?h (mArray l) = None"
    using lt by (simp add: cell_update)
  moreover have "unchanged_outside h ?h {mArray l}"
    by (simp add: unchanged_outside_def cell_update cell_alloc)
  moreover have "cell ?h (mArray ?l) = cell (h @ [Some []]) (mArray ?l)"
    using n by (simp add: cell_alloc)
  ultimately show ?thesis
    using c ArrayList_ctor_empty [of lim "default :: 'a" h] by simp
qed


text \<open>Running the operations on given lists: the loop of \<open>std::copy\<close>, step by step.\<close>

lemma copy_steps_numeral:
  "copy_steps (numeral k) first result h =
     (case load_ptr h first of
        None \<Rightarrow> None
      | Some x \<Rightarrow>
          (case store_ptr h result x of
             None \<Rightarrow> None
           | Some h' \<Rightarrow> copy_steps (pred_numeral k) (ptr_plus first 1) (ptr_plus result 1) h'))"
  by (simp add: numeral_eq_Suc)

lemmas al_eval = ArrayList_add_def ArrayList_add_at_def ArrayList_remove_def ArrayList_copy_ctor_def
  ArrayList_ctor_def ArrayList_get_ref_def rangeCheck_def
  new_array_def alloc_def std_copy_def iter_diff_def iter_plus_def to_int_def
  ArrayList_begin_def ArrayList_end_def load_ptr_def store_ptr_def ptr_plus_def cell_def
  delete_array_def free_def deref_def load_at_def store_at_def fill_range_def copy_steps_numeral

lemma replicate_numeral_Cons: "replicate (numeral k) x = x # replicate (pred_numeral k) x"
  by (simp add: numeral_eq_Suc)

subsection \<open>Where the operations do what their documentation says\<close>

text \<open>
  The iterators count in \<open>int\<close>: on lists of fewer than \<open>2^31\<close> elements their arithmetic
  is exact, and \<open>std::copy\<close> copies the range that it is given.
\<close>

lemma to_int_small: "- (2 ^ 31) \<le> k \<Longrightarrow> k < 2 ^ 31 \<Longrightarrow> to_int k = k"
  by (simp add: to_int_def sint_sbintrunc' signed_take_bit_int_eq_self)

lemma uint_less: "unat (w::size_t) < n \<Longrightarrow> uint w < int n"
  unfolding uint_nat by (simp only: of_nat_less_iff)

lemma to_int_uint:
  assumes "unat (w::size_t) < 2 ^ 31"
  shows "to_int (uint w) = uint w"
proof (rule to_int_small)
  show "- (2 ^ 31) \<le> uint w"
    by (rule order_trans [of _ 0]) simp_all
  from uint_less [OF assms] show "uint w < 2 ^ 31"
    by simp
qed

lemma copy_steps_ok:
  assumes "p \<noteq> q" and "cell h p = Some src"
  shows "cell h q = Some dst \<Longrightarrow> i + n \<le> length src \<Longrightarrow> j + n \<le> length dst \<Longrightarrow>
         copy_steps n (p, int i) (q, int j) h =
           Some (h[q := Some (take j dst @ take n (drop i src) @ drop (j + n) dst)])"
  using assms(2)
proof (induction n arbitrary: i j dst h)
  case 0
  then have "h[q := Some dst] = h"
    by (auto simp: cell_def list_update_same_conv split: if_splits)
  then show ?case by simp
next
  case (Suc n)
  let ?x = "src ! i" and ?h = "h[q := Some (dst[j := src ! i])]"
  from Suc.prems have ql: "q < length h"
    by (auto dest: cell_Some_less)
  have l: "load_ptr h (p, int i) = Some ?x"
    using Suc.prems by (simp add: load_ptr_def)
  have s: "store_ptr h (q, int j) ?x = Some ?h"
    using Suc.prems by (simp add: store_ptr_def)
  have cp: "cell ?h p = Some src"
    using Suc.prems assms(1) by (simp add: cell_update)
  have cq: "cell ?h q = Some (dst[j := ?x])"
    using ql by (simp add: cell_update)
  have ih: "copy_steps n (p, int (Suc i)) (q, int (Suc j)) ?h =
      Some (?h[q := Some (take (Suc j) (dst[j := ?x]) @ take n (drop (Suc i) src) @ drop (Suc j + n) (dst[j := ?x]))])"
    using Suc.prems by (intro Suc.IH [OF cq _ _ cp]) simp_all
  have eq: "take (Suc j) (dst[j := ?x]) @ take n (drop (Suc i) src) @ drop (Suc j + n) (dst[j := ?x]) =
      take j dst @ take (Suc n) (drop i src) @ drop (j + Suc n) dst"
  proof -
    have a: "take (Suc j) (dst[j := ?x]) = take j dst @ [?x]"
      using Suc.prems by (simp add: take_Suc_conv_app_nth)
    have b: "take (Suc n) (drop i src) = ?x # take n (drop (Suc i) src)"
      using Suc.prems by (simp add: take_Suc_conv_app_nth Cons_nth_drop_Suc [symmetric])
    have c: "drop (Suc j + n) (dst[j := ?x]) = drop (j + Suc n) dst"
      by simp
    show ?thesis unfolding a b c by simp
  qed
  have "copy_steps (Suc n) (p, int i) (q, int j) h = copy_steps n (p, int (Suc i)) (q, int (Suc j)) ?h"
    using l s by (simp add: ptr_plus_def add.commute)
  also note ih
  also have "?h[q := Some (take (Suc j) (dst[j := ?x]) @ take n (drop (Suc i) src) @ drop (Suc j + n) (dst[j := ?x]))] =
      h[q := Some (take j dst @ take (Suc n) (drop i src) @ drop (j + Suc n) dst)]"
    unfolding eq by simp
  finally show ?case .
qed

lemma std_copy_ok:
  assumes "p \<noteq> q" and "cell h p = Some src" and "cell h q = Some dst"
    and "i + n \<le> length src" and "j + n \<le> length dst" and "n < 2 ^ 31"
  shows "std_copy (p, int i) (p, int i + int n) (q, int j) h =
           Some (h[q := Some (take j dst @ take n (drop i src) @ drop (j + n) dst)])"
proof (cases "n = 0")
  case True
  from assms(3) have "h[q := Some dst] = h"
    by (auto simp: cell_def list_update_same_conv split: if_splits)
  with True show ?thesis
    by (simp add: std_copy_def iter_diff_def to_int_small)
next
  case False
  have "to_int (int n) = int n"
    using assms(6) by (intro to_int_small) simp_all
  with False copy_steps_ok [OF assms(1,2,3,4,5)] show ?thesis
    by (simp add: std_copy_def iter_diff_def)
qed


lemma take_Suc_update_append:
  "length xs = n \<Longrightarrow> take (Suc n) ((xs @ y # ys)[n := v]) = xs @ [v]"
  by (simp add: list_update_append)

text \<open>
  \<open>add(value)\<close> on a list of fewer than \<open>2^31\<close> elements, with a new capacity within the
  limit of \<open>new\<close>, and with a \<open>value\<close> that is not a slot of the list's own buffer when
  that buffer is full: the value is appended.
\<close>

lemma ArrayList_add_ok:
  assumes wf: "ArrayList_wf h l" and small: "unat (mSize l) < 2 ^ 31"
    and lim: "2 * unat (mSize l) + 2 \<le> lim"
    and val: "deref h value = Some v"
    and own: "mSize l < mCapacity l \<or> (\<forall>i. value \<noteq> Slot (mArray l) i)"
  shows "\<exists>l' h'. ArrayList_add lim value l h = Returns () (l', h') \<and> ArrayList_wf h' l' \<and>
           ArrayList_elems h' l' = ArrayList_elems h l @ [v] \<and>
           unat (mSize l') = unat (mSize l) + 1 \<and>
           (if mSize l < mCapacity l then mCapacity l' = mCapacity l \<and> mArray l' = mArray l
            else unat (mCapacity l') = 2 * unat (mSize l) + 2 \<and> cell h' (mArray l) = None)"
proof -
  from wf obtain buf where b: "cell h (mArray l) = Some buf" "length buf = unat (mCapacity l)"
    "unat (mSize l) \<le> unat (mCapacity l)" "mArray l < length h"
    "ArrayList_elems h l = take (unat (mSize l)) buf"
    by (rule wfD)
  let ?n = "unat (mSize l)"
  have u1: "unat (mSize l + 1) = ?n + 1"
    using small by (intro unat_plus1) simp
  show ?thesis
  proof (cases "mSize l < mCapacity l")
    case True
    then have lt: "?n < unat (mCapacity l)" by (simp add: word_less_nat_alt)
    let ?h = "h[mArray l := Some (buf[?n := v])]"
    have "ArrayList_add lim value l h = Returns () (l\<lparr>mSize := mSize l + 1\<rparr>, ?h)"
      using True b lt val by (simp add: ArrayList_add_def store_at_def word_le_nat_alt)
    moreover have "cell ?h (mArray l) = Some (buf[?n := v])"
      using b(4) by (simp add: cell_update cell_alloc)
    ultimately show ?thesis
      using True b lt u1
      by (simp add: ArrayList_wf_def ArrayList_elems_def word_le_nat_alt take_Suc_conv_app_nth)
  next
    case False
    with b(3) have full: "unat (mCapacity l) = ?n"
      by (simp add: word_less_nat_alt)
    from False have ge: "mCapacity l \<le> mSize l" by simp
    have cap: "unat (2 * mSize l + 2) = 2 * ?n + 2"
      using small by (intro unat_double_plus2) simp
    let ?t = "length h"
    let ?fresh = "replicate (2 * ?n + 2) (default :: 'a)"
    let ?h1 = "h @ [Some ?fresh]"
    have na: "new_array lim h (2 * mSize l + 2) = Some (?t, ?h1)"
      using lim by (simp add: new_array_def alloc_def cap)
    have ne: "mArray l \<noteq> ?t" using b(4) by simp
    have c1: "cell ?h1 (mArray l) = Some buf" using b(1,4) by (simp add: cell_alloc)
    have c2: "cell ?h1 ?t = Some ?fresh" by (simp add: cell_alloc)
    let ?new = "take ?n buf @ drop ?n ?fresh"
    let ?h2 = "?h1[?t := Some ?new]"
    have "std_copy (mArray l, int 0) (mArray l, int 0 + int ?n) (?t, int 0) ?h1 =
        Some (?h1[?t := Some (take 0 ?fresh @ take ?n (drop 0 buf) @ drop (0 + ?n) ?fresh)])"
      using b(2) full small by (intro std_copy_ok [OF ne c1 c2]) simp_all
    then have cp: "std_copy (ArrayList_begin l) (ArrayList_end l) (?t, 0) ?h1 = Some ?h2"
      by (simp add: ArrayList_begin_def ArrayList_end_def)
    let ?h3 = "?h2[mArray l := None]"
    have del: "delete_array ?h2 (mArray l) = Some ?h3"
      using b(1,4) by (simp add: delete_array_def free_def cell_update cell_alloc)
    have dv: "deref ?h3 value = Some v"
    proof (cases "value")
      case (Val w)
      with val show ?thesis by (simp add: deref_def)
    next
      case (Slot a i)
      with own False have a: "a \<noteq> mArray l" by auto
      from Slot val have "load_at h a i = Some v" by (simp add: deref_def)
      then have "a < length h"
        by (auto simp: load_at_def dest: cell_Some_less split: option.splits if_splits)
      with a have "cell ?h3 a = cell h a"
        by (simp add: cell_update cell_alloc)
      with \<open>load_at h a i = Some v\<close> Slot show ?thesis
        by (simp add: deref_def load_at_def)
    qed
    have c3: "cell ?h3 ?t = Some ?new"
      using ne by (simp add: cell_update cell_alloc)
    have len: "length ?new = 2 * ?n + 2"
      using b(2) full by simp
    let ?h5 = "?h3[?t := Some (?new[?n := v])]"
    have st: "store_at ?h3 ?t ?n v = Some ?h5"
      using c3 len by (simp add: store_at_def)
    let ?l' = "l\<lparr>mArray := ?t, mCapacity := 2 * mSize l + 2, mSize := mSize l + 1\<rparr>"
    have r: "ArrayList_add lim value l h = Returns () (?l', ?h5)"
      using ge na cp del dv st by (simp add: ArrayList_add_def)
    have c5: "cell ?h5 ?t = Some (?new[?n := v])"
      by (simp add: cell_update cell_alloc)
    have c5': "cell ?h5 (mArray l) = None"
      using ne b(4) by (simp add: cell_update cell_alloc)
    have tk: "take (Suc ?n) (?new[?n := v]) = take ?n buf @ [v]"
    proof -
      have "drop ?n ?fresh = replicate (Suc (Suc ?n)) default"
        by (simp del: replicate.simps)
      then have "drop ?n ?fresh = default # replicate (Suc ?n) default"
        by simp
      then show ?thesis
        using b(2) full by (simp add: take_Suc_update_append del: replicate.simps)
    qed
    have "ArrayList_wf ?h5 ?l'"
      using c5 len cap u1 by (simp add: ArrayList_wf_def word_le_nat_alt)
    moreover have "ArrayList_elems ?h5 ?l' = ArrayList_elems h l @ [v]"
      using c5 u1 tk b(5) by (simp add: ArrayList_elems_def)
    ultimately show ?thesis
      using r False u1 cap c5' by simp
  qed
qed


text \<open>
  The copy constructor on a list of fewer than \<open>2^31\<close> elements, within the limit of
  \<open>new\<close>: the new buffer holds the elements of the source and nothing else.
\<close>

lemma ArrayList_copy_ctor_ok:
  assumes wf: "ArrayList_wf h src" and small: "unat (mSize src) < 2 ^ 31" and lim: "unat (mSize src) \<le> lim"
  shows "ArrayList_copy_ctor lim src h =
           Returns \<lparr>mSize = mSize src, mCapacity = mSize src, mArray = length h\<rparr>
             (h @ [Some (ArrayList_elems h src)])"
proof -
  from wf obtain buf where b: "cell h (mArray src) = Some buf" "length buf = unat (mCapacity src)"
    "unat (mSize src) \<le> unat (mCapacity src)" "mArray src < length h"
    "ArrayList_elems h src = take (unat (mSize src)) buf"
    by (rule wfD)
  let ?n = "unat (mSize src)" and ?t = "length h"
  let ?fresh = "replicate ?n (default :: 'a)"
  let ?h1 = "h @ [Some ?fresh]"
  have na: "new_array lim h (mSize src) = Some (?t, ?h1)"
    using lim by (simp add: new_array_def alloc_def)
  have ne: "mArray src \<noteq> ?t" using b(4) by simp
  have c1: "cell ?h1 (mArray src) = Some buf" using b(1,4) by (simp add: cell_alloc)
  have c2: "cell ?h1 ?t = Some ?fresh" by (simp add: cell_alloc)
  have "std_copy (mArray src, int 0) (mArray src, int 0 + int ?n) (?t, int 0) ?h1 =
      Some (?h1[?t := Some (take 0 ?fresh @ take ?n (drop 0 buf) @ drop (0 + ?n) ?fresh)])"
    using b(2,3) small by (intro std_copy_ok [OF ne c1 c2]) simp_all
  then have "std_copy (ArrayList_begin src)
      (ArrayList_end src) (ArrayList_begin \<lparr>mSize = mSize src, mCapacity = mSize src, mArray = ?t\<rparr>) ?h1 =
      Some (h @ [Some (take ?n buf)])"
    by (simp add: ArrayList_begin_def ArrayList_end_def)
  with na b(5) show ?thesis
    by (simp add: ArrayList_copy_ctor_def)
qed

text \<open>
  \<open>remove(index)\<close> at a valid index of a list of fewer than \<open>2^31\<close> elements, with the
  capacity within the limit of \<open>new\<close>.
\<close>

lemma ArrayList_remove_ok:
  assumes wf: "ArrayList_wf h l" and i: "index < mSize l" and small: "unat (mSize l) < 2 ^ 31"
    and lim: "unat (mCapacity l) \<le> lim"
  shows "\<exists>l' h'. ArrayList_remove lim index l h = Returns (ArrayList_elems h l ! unat index) (l', h') \<and>
           ArrayList_wf h' l' \<and>
           ArrayList_elems h' l' =
             take (unat index) (ArrayList_elems h l) @ drop (Suc (unat index)) (ArrayList_elems h l) \<and>
           unat (mSize l') = unat (mSize l) - 1 \<and> mCapacity l' = mCapacity l"
proof -
  from wf obtain buf where b: "cell h (mArray l) = Some buf" "length buf = unat (mCapacity l)"
    "unat (mSize l) \<le> unat (mCapacity l)" "mArray l < length h"
    "ArrayList_elems h l = take (unat (mSize l)) buf"
    by (rule wfD)
  let ?n = "unat (mSize l)" and ?i = "unat index" and ?c = "unat (mCapacity l)"
  have lt: "?i < ?n" using i by (simp add: word_less_nat_alt)
  then have nz: "mSize l \<noteq> 0" by auto
  have m1: "unat (mSize l - 1) = ?n - 1" using nz by (rule unat_minus_one)
  have rc: "rangeCheck l index = None" using i by (simp add: rangeCheck_def)
  have ld: "load_at h (mArray l) ?i = Some (buf ! ?i)"
    using b lt by (simp add: load_at_def)
  have el: "ArrayList_elems h l ! ?i = buf ! ?i"
    using b(5) lt by simp
  show ?thesis
  proof (cases "index < mSize l - 1")
    case False
    then have last: "?i = ?n - 1" using lt by (simp add: word_less_nat_alt m1)
    have "ArrayList_remove lim index l h = Returns (buf ! ?i) (l\<lparr>mSize := mSize l - 1\<rparr>, h)"
      using False rc ld by (simp add: ArrayList_remove_def)
    moreover have "take (?n - 1) buf = take ?i (take ?n buf) @ drop (Suc ?i) (take ?n buf)"
      using last lt b(2,3) by simp
    ultimately show ?thesis
      using b el m1 by (simp add: ArrayList_wf_def ArrayList_elems_def word_le_nat_alt)
  next
    case True
    then have lt1: "?i < ?n - 1" by (simp add: word_less_nat_alt m1)
    let ?t = "length h"
    let ?fresh = "replicate ?c (default :: 'a)"
    let ?h1 = "h @ [Some ?fresh]"
    have na: "new_array lim h (mCapacity l) = Some (?t, ?h1)"
      using lim by (simp add: new_array_def alloc_def)
    have ne: "mArray l \<noteq> ?t" using b(4) by simp
    have c1: "cell ?h1 (mArray l) = Some buf" using b(1,4) by (simp add: cell_alloc)
    have c2: "cell ?h1 ?t = Some ?fresh" by (simp add: cell_alloc)
    have ti: "to_int (uint index) = uint index"
      using lt small by (intro to_int_uint) simp
    define d1 where "d1 = take ?i buf @ drop ?i ?fresh"
    let ?h2 = "?h1[?t := Some d1]"
    have "std_copy (mArray l, int 0) (mArray l, int 0 + int ?i) (?t, int 0) ?h1 =
        Some (?h1[?t := Some (take 0 ?fresh @ take ?i (drop 0 buf) @ drop (0 + ?i) ?fresh)])"
      using b(2,3) lt small by (intro std_copy_ok [OF ne c1 c2]) simp_all
    then have cp1: "std_copy (ArrayList_begin l) (iter_plus (ArrayList_begin l) (uint index)) (?t, 0) ?h1 =
        Some ?h2"
      by (simp add: ArrayList_begin_def iter_plus_def ptr_plus_def ti d1_def)
    have l1: "length d1 = ?c"
      using b(2,3) lt by (simp add: d1_def)
    have c1': "cell ?h2 (mArray l) = Some buf" using b(1,4) by (simp add: cell_alloc cell_update)
    have c2': "cell ?h2 ?t = Some d1" by (simp add: cell_alloc cell_update)
    let ?k = "?n - Suc ?i"
    define d2 where "d2 = take ?i d1 @ take ?k (drop (Suc ?i) buf) @ drop (?i + ?k) d1"
    let ?h3 = "?h2[?t := Some d2]"
    have "std_copy (mArray l, int (Suc ?i)) (mArray l, int (Suc ?i) + int ?k) (?t, int ?i) ?h2 =
        Some ?h3"
      unfolding d2_def using b(2,3) lt small l1 by (intro std_copy_ok [OF ne c1' c2']) simp_all
    moreover have "int (Suc ?i) + int ?k = uint (mSize l)"
      using lt by simp
    moreover have "to_int 1 = 1"
      by (intro to_int_small) simp_all
    ultimately have cp2: "std_copy (iter_plus (iter_plus (ArrayList_begin l) (uint index)) 1)
        (ArrayList_end l) (?t, uint index) ?h2 = Some ?h3"
      by (simp add: ArrayList_begin_def ArrayList_end_def iter_plus_def ptr_plus_def ti add.commute)
    let ?h4 = "?h3[mArray l := None]"
    have del: "delete_array ?h3 (mArray l) = Some ?h4"
      using b(1,4) by (simp add: delete_array_def free_def cell_update cell_alloc)
    let ?l' = "l\<lparr>mArray := ?t, mSize := mSize l - 1\<rparr>"
    have r: "ArrayList_remove lim index l h = Returns (buf ! ?i) (?l', ?h4)"
      using True rc ld na cp1 cp2 del by (simp add: ArrayList_remove_def)
    have c4: "cell ?h4 ?t = Some d2"
      using ne by (simp add: cell_update cell_alloc)
    have len: "length d2 = ?c"
      using b(2,3) lt l1 by (simp add: d2_def)
    have "take ?i d1 = take ?i buf"
      using b(2,3) lt by (simp add: d1_def)
    then have "take (?n - 1) d2 = take ?i buf @ take ?k (drop (Suc ?i) buf)"
      using b(2,3) lt lt1 by (simp add: d2_def)
    moreover have "take ?i (take ?n buf) @ drop (Suc ?i) (take ?n buf) = take ?i buf @ take ?k (drop (Suc ?i) buf)"
      using lt by (simp add: drop_take min_def)
    ultimately have tk: "take (?n - 1) d2 = take ?i (take ?n buf) @ drop (Suc ?i) (take ?n buf)"
      by simp
    have "ArrayList_wf ?h4 ?l'"
      using c4 len b(3) m1 by (simp add: ArrayList_wf_def word_le_nat_alt)
    moreover have "ArrayList_elems ?h4 ?l' =
        take ?i (ArrayList_elems h l) @ drop (Suc ?i) (ArrayList_elems h l)"
      using c4 tk m1 b(5) by (simp add: ArrayList_elems_def)
    ultimately show ?thesis
      using r el m1 by simp
  qed
qed


lemma unat_max: "unat (max a b :: size_t) = max (unat a) (unat b)"
  by (simp add: max_def word_le_nat_alt)

lemma unat_min: "unat (min a b :: size_t) = min (unat a) (unat b)"
  by (simp add: min_def word_le_nat_alt)

lemma unat_newSize:
  "2 * (max (unat index) (unat s) + 1) < (2::nat) ^ 64 \<Longrightarrow>
   unat (max index s + 1 :: size_t) = max (unat index) (unat s) + 1"
  by (simp add: unat_word_ariths unat_max)

lemma unat_newCap:
  "2 * (max (unat index) (unat s) + 1) < (2::nat) ^ 64 \<Longrightarrow>
   unat (2 * (max index s + 1) :: size_t) = 2 * (max (unat index) (unat s) + 1)"
  by (simp add: unat_word_ariths unat_max)

text \<open>
  \<open>add(index, value)\<close> on a list of fewer than \<open>2^31\<close> elements, when the new capacity
  \<open>2 * (max(index, size) + 1)\<close> is a \<open>size_t\<close> value within the limit of \<open>new\<close>.
\<close>

lemma ArrayList_add_at_ok:
  assumes wf: "ArrayList_wf h l" and small: "unat (mSize l) < 2 ^ 31"
    and fits: "2 * (max (unat index) (unat (mSize l)) + 1) < (2::nat) ^ 64"
    and lim: "2 * (max (unat index) (unat (mSize l)) + 1) \<le> lim"
  shows "\<exists>l' h'. ArrayList_add_at lim index v l h = Returns () (l', h') \<and>
           ArrayList_wf h' l' \<and>
           ArrayList_elems h' l' =
             (if index < mSize l
              then take (unat index) (ArrayList_elems h l) @ v # drop (unat index) (ArrayList_elems h l)
              else ArrayList_elems h l @ replicate (unat index - unat (mSize l)) default @ [v]) \<and>
           unat (mSize l') = max (unat index) (unat (mSize l)) + 1 \<and>
           unat (mCapacity l') = 2 * (max (unat index) (unat (mSize l)) + 1) \<and>
           cell h' (mArray l) = None"
proof -
  from wf obtain buf where b: "cell h (mArray l) = Some buf" "length buf = unat (mCapacity l)"
    "unat (mSize l) \<le> unat (mCapacity l)" "mArray l < length h"
    "ArrayList_elems h l = take (unat (mSize l)) buf"
    by (rule wfD)
  let ?n = "unat (mSize l)" and ?i = "unat index"
  let ?m = "max ?i ?n + 1"
  note u = unat_newSize [OF fits] unat_newCap [OF fits]
  let ?t = "length h"
  define fresh where "fresh = replicate (2 * ?m) (default :: 'a)"
  have lf: "length fresh = 2 * ?m" by (simp add: fresh_def)
  define h1 where "h1 = h @ [Some fresh]"
  have na: "new_array lim h (2 * (max index (mSize l) + 1)) = Some (?t, h1)"
    using lim u by (simp add: new_array_def alloc_def fresh_def h1_def)
  have ne: "mArray l \<noteq> ?t" using b(4) by simp
  have c1: "cell h1 (mArray l) = Some buf" using b(1,4) by (simp add: cell_alloc h1_def)
  have c2: "cell h1 ?t = Some fresh" by (simp add: cell_alloc h1_def)
  have len1: "length h1 = Suc ?t" by (simp add: h1_def)
  let ?k = "min ?i ?n"
  have tk: "to_int (int ?k) = int ?k"
    using small by (intro to_int_small) simp_all
  have uk: "uint (min index (mSize l)) = int ?k"
    by (simp add: uint_nat unat_min)
  define d1 where "d1 = take ?k buf @ drop ?k fresh"
  define h2 where "h2 = h1[?t := Some d1]"
  have "std_copy (mArray l, int 0) (mArray l, int 0 + int ?k) (?t, int 0) h1 =
      Some (h1[?t := Some (take 0 fresh @ take ?k (drop 0 buf) @ drop (0 + ?k) fresh)])"
    using b(2,3) small lf by (intro std_copy_ok [OF ne c1 c2]) simp_all
  then have cp1: "std_copy (ArrayList_begin l)
      (iter_plus (ArrayList_begin l) (uint (min index (mSize l)))) (?t, 0) h1 = Some h2"
    unfolding ArrayList_begin_def iter_plus_def ptr_plus_def uk tk d1_def h2_def by simp
  have l1: "length d1 = 2 * ?m"
    using b(2,3) lf by (simp add: d1_def)
  have c1': "cell h2 (mArray l) = Some buf" using c1 ne by (simp add: cell_update h2_def)
  have c2': "cell h2 ?t = Some d1" using len1 by (simp add: cell_update h2_def)
  have len2: "length h2 = Suc ?t" using len1 by (simp add: h2_def)
  have "\<exists>d3. (if index < mSize l
        then std_copy (iter_plus (ArrayList_begin l) (uint index)) (ArrayList_end l) (?t, uint index + 1) h2
        else fill_range h2 ?t ?n ?i default) = Some (h2[?t := Some d3]) \<and> length d3 = 2 * ?m \<and>
      take (Suc (max ?i ?n)) (d3[?i := v]) =
        (if index < mSize l then take ?i (take ?n buf) @ v # drop ?i (take ?n buf)
         else take ?n buf @ replicate (?i - ?n) default @ [v])"
  proof (cases "index < mSize l")
    case True
    then have lt: "?i < ?n" by (simp add: word_less_nat_alt)
    have ti: "to_int (uint index) = uint index"
      using lt small by (intro to_int_uint) simp
    let ?c = "?n - ?i"
    define d3 where "d3 = take (Suc ?i) d1 @ take ?c (drop ?i buf) @ drop (Suc ?i + ?c) d1"
    have "std_copy (mArray l, int ?i) (mArray l, int ?i + int ?c) (?t, int (Suc ?i)) h2 =
        Some (h2[?t := Some d3])"
      unfolding d3_def using b(2,3) lt small l1 by (intro std_copy_ok [OF ne c1' c2']) simp_all
    moreover have "int ?i + int ?c = uint (mSize l)"
      using lt by simp
    ultimately have "std_copy (iter_plus (ArrayList_begin l) (uint index)) (ArrayList_end l)
        (?t, uint index + 1) h2 = Some (h2[?t := Some d3])"
      by (simp add: ArrayList_begin_def ArrayList_end_def iter_plus_def ptr_plus_def ti add.commute)
    moreover have "length d3 = 2 * ?m"
      using b(2,3) lt l1 by (simp add: d3_def)
    moreover have "take (Suc ?i) d1 = take ?i buf @ [d1 ! ?i]"
      using b(2,3) lt l1 by (simp add: d1_def take_Suc_conv_app_nth nth_append min_def)
    then have "take (Suc (max ?i ?n)) (d3[?i := v]) = take ?i (take ?n buf) @ v # drop ?i (take ?n buf)"
      using b(2,3) lt l1 by (simp add: d3_def list_update_append drop_take max_def min_def Suc_diff_le)
    ultimately show ?thesis
      using True by auto
  next
    case False
    then have ge: "?n \<le> ?i" by (simp add: word_less_nat_alt)
    define d3 where "d3 = take ?n d1 @ replicate (?i - ?n) default @ drop ?i d1"
    have "fill_range h2 ?t ?n ?i default = Some (h2[?t := Some d3])"
      using ge l1 c2' by (simp add: fill_range_def d3_def)
    moreover have "length d3 = 2 * ?m"
      using ge l1 by (simp add: d3_def)
    moreover have "take (Suc (max ?i ?n)) (d3[?i := v]) = take ?n buf @ replicate (?i - ?n) default @ [v]"
    proof -
      let ?xs = "take ?n buf @ replicate (?i - ?n) (default :: 'a)"
      have lx: "length ?xs = ?i"
        using b(2,3) ge by simp
      have "take ?n d1 = take ?n buf"
        using b(2,3) ge by (simp add: d1_def min_def)
      moreover have "drop ?i d1 = d1 ! ?i # drop (Suc ?i) d1"
        using ge l1 by (simp add: Cons_nth_drop_Suc)
      ultimately have "d3 = ?xs @ d1 ! ?i # drop (Suc ?i) d1"
        by (simp add: d3_def)
      with take_Suc_update_append [OF lx, of "d1 ! ?i" "drop (Suc ?i) d1" v] ge show ?thesis
        by (simp add: max_def)
    qed
    ultimately show ?thesis
      using False by auto
  qed
  then obtain d3 where
    s2: "(if index < mSize l
        then std_copy (iter_plus (ArrayList_begin l) (uint index)) (ArrayList_end l) (?t, uint index + 1) h2
        else fill_range h2 ?t ?n ?i default) = Some (h2[?t := Some d3])"
    and l3: "length d3 = 2 * ?m"
    and t3: "take (Suc (max ?i ?n)) (d3[?i := v]) =
        (if index < mSize l then take ?i (take ?n buf) @ v # drop ?i (take ?n buf)
         else take ?n buf @ replicate (?i - ?n) default @ [v])"
    by blast
  define h3 where "h3 = h2[?t := Some d3]"
  define h4 where "h4 = h3[?t := Some (d3[?i := v])]"
  define h5 where "h5 = h4[mArray l := None]"
  note s2 = s2 [folded h3_def]
  have st: "store_at h3 ?t ?i v = Some h4"
    using l3 len2 by (simp add: store_at_def cell_update h3_def h4_def)
  have "cell h4 (mArray l) = Some buf"
    using c1' ne by (simp add: cell_update h3_def h4_def)
  then have del: "delete_array h4 (mArray l) = Some h5"
    by (simp add: delete_array_def free_def h5_def)
  let ?l' = "l\<lparr>mArray := ?t, mSize := max index (mSize l) + 1, mCapacity := 2 * (max index (mSize l) + 1)\<rparr>"
  have r: "ArrayList_add_at lim index v l h = Returns () (?l', h5)"
    using na cp1 s2 st del by (simp add: ArrayList_add_at_def Let_def)
  have c5: "cell h5 ?t = Some (d3[?i := v])"
    using ne len2 by (simp add: cell_update h3_def h4_def h5_def)
  have c5': "cell h5 (mArray l) = None"
    using ne b(4) len2 by (simp add: cell_update h3_def h4_def h5_def)
  have "ArrayList_wf h5 ?l'"
    using c5 l3 u by (auto simp: ArrayList_wf_def word_le_nat_alt max_def)
  moreover have "ArrayList_elems h5 ?l' =
      (if index < mSize l
       then take ?i (ArrayList_elems h l) @ v # drop ?i (ArrayList_elems h l)
       else ArrayList_elems h l @ replicate (?i - ?n) default @ [v])"
    using c5 u t3 b(5) by (simp add: ArrayList_elems_def)
  ultimately show ?thesis
    using r u c5' by simp
qed


text \<open>
  The constructor from a size and a value, when twice the size is a \<open>size_t\<close> value
  within the limit of \<open>new\<close>.
\<close>

lemma ArrayList_ctor_ok:
  assumes fits: "2 * unat sz < (2::nat) ^ 64" and lim: "2 * unat sz \<le> lim"
  shows "ArrayList_ctor lim sz v h =
           Returns \<lparr>mSize = sz, mCapacity = sz * 2, mArray = length h\<rparr>
             (h @ [Some (replicate (unat sz) v @ replicate (unat sz) default)])"
proof -
  have u: "unat (sz * 2) = 2 * unat sz"
    using fits by (simp add: unat_word_ariths)
  have "replicate (2 * unat sz) (default :: 'a) = replicate (unat sz) default @ replicate (unat sz) default"
    by (simp add: replicate_add [symmetric] del: replicate_add)
  with u lim show ?thesis
    by (simp add: ArrayList_ctor_def new_array_def alloc_def fill_range_def cell_alloc)
qed

section \<open>Properties of LinkedList\<close>

definition nxt :: "'a nheap \<Rightarrow> addr \<Rightarrow> addr option" where
  "nxt h a = map_option mNext (cell h a)"

definition prv :: "'a nheap \<Rightarrow> addr \<Rightarrow> addr option" where
  "prv h a = map_option mPrev (cell h a)"

definition itm :: "'a nheap \<Rightarrow> addr \<Rightarrow> 'a option" where
  "itm h a = map_option mItem (cell h a)"

fun links :: "'a nheap \<Rightarrow> addr list \<Rightarrow> bool" where
  "links h [] = True"
| "links h [a] = (cell h a \<noteq> None)"
| "links h (a # b # cs) = (nxt h a = Some b \<and> prv h b = Some a \<and> links h (b # cs))"

primrec items :: "'a nheap \<Rightarrow> addr list \<Rightarrow> 'a list" where
  "items h [] = []"
| "items h (a # as) = (case cell h a of None \<Rightarrow> [] | Some n \<Rightarrow> [mItem n]) @ items h as"

definition ring :: "'a nheap \<Rightarrow> addr \<Rightarrow> addr list \<Rightarrow> bool" where
  "ring h t as \<longleftrightarrow> distinct (t # as) \<and> links h (t # as @ [t])"

definition LinkedList_chain :: "'a nheap \<Rightarrow> LinkedList \<Rightarrow> addr list \<Rightarrow> bool" where
  "LinkedList_chain h l as \<longleftrightarrow> ring h (mTail l) as \<and> length as = unat (mSize_L l)"

lemma nxt_Some_iff: "nxt h a = Some b \<longleftrightarrow> (\<exists>n. cell h a = Some n \<and> mNext n = b)"
  by (auto simp: nxt_def)

lemma prv_Some_iff: "prv h a = Some b \<longleftrightarrow> (\<exists>n. cell h a = Some n \<and> mPrev n = b)"
  by (auto simp: prv_def)


lemma alloc_same_iff:
  "(cell h' a = None) = (cell h a = None) \<longleftrightarrow> (nxt h' a = None) = (nxt h a = None)"
  by (simp add: nxt_def)

lemma links_allocated: "links h cs \<Longrightarrow> a \<in> set cs \<Longrightarrow> cell h a \<noteq> None"
  by (induction h cs rule: links.induct) (auto simp: nxt_def)

lemma links_append:
  "links h (xs @ y # ys) \<longleftrightarrow> links h (xs @ [y]) \<and> links h (y # ys)"
proof (induction h xs rule: links.induct)
  case (1 h)
  show ?case by (cases ys) (auto simp: nxt_def)
next
  case (2 h a)
  show ?case by (cases ys) (auto simp: nxt_def)
next
  case (3 h a b cs)
  then show ?case by simp
qed

lemma links_cong:
  assumes "\<And>a. a \<in> set (butlast cs) \<Longrightarrow> nxt h' a = nxt h a"
    and "\<And>a. a \<in> set (tl cs) \<Longrightarrow> prv h' a = prv h a"
    and "\<And>a. a \<in> set cs \<Longrightarrow> (cell h' a = None) = (cell h a = None)"
  shows "links h' cs = links h cs"
  using assms
proof (induction h cs rule: links.induct)
  case (3 h a b cs)
  have "links h' (b # cs) = links h (b # cs)"
    by (rule 3) (use "3.prems" in auto)
  moreover have "nxt h' a = nxt h a" by (rule "3.prems") simp
  moreover have "prv h' b = prv h b" by (rule "3.prems") simp
  ultimately show ?case by simp
qed auto

lemma links_last_prv: "links h (cs @ [a, b]) \<Longrightarrow> prv h b = Some a \<and> nxt h a = Some b"
  using links_append [of h cs a "[b]"] by simp

lemma links_head_nxt: "links h (a # b # cs) \<Longrightarrow> nxt h a = Some b \<and> prv h b = Some a"
  by simp

lemma nxt_alloc: "nxt (h @ [Some n]) a = (if a = length h then Some (mNext n) else nxt h a)"
  by (simp add: nxt_def cell_alloc)

lemma prv_alloc: "prv (h @ [Some n]) a = (if a = length h then Some (mPrev n) else prv h a)"
  by (simp add: prv_def cell_alloc)

lemma itm_alloc: "itm (h @ [Some n]) a = (if a = length h then Some (mItem n) else itm h a)"
  by (simp add: itm_def cell_alloc)

lemma nxt_fresh: "length h \<le> a \<Longrightarrow> nxt h a = None"
  by (simp add: nxt_def cell_def)

lemma link_effect:
  assumes "cell h p \<noteq> None" and "cell h q \<noteq> None"
  shows "\<exists>h'. link h p q = Some h' \<and> length h' = length h \<and>
           nxt h' = (nxt h)(p \<mapsto> q) \<and> prv h' = (prv h)(q \<mapsto> p) \<and> itm h' = itm h \<and>
           (\<forall>a. (cell h' a = None) = (cell h a = None)) \<and>
           (\<forall>a. a \<noteq> p \<longrightarrow> a \<noteq> q \<longrightarrow> cell h' a = cell h a)"
proof -
  from assms obtain n m where c: "cell h p = Some n" "cell h q = Some m"
    by auto
  then have lt: "p < length h" "q < length h"
    by (auto dest: cell_Some_less)
  show ?thesis
    using c lt
    by (auto simp: link_def Let_def cell_update nxt_def prv_def itm_def fun_eq_iff)
qed

lemma new_node_between_effect:
  assumes "cell h p \<noteq> None" and "cell h q \<noteq> None"
  shows "\<exists>h'. new_node_between h v p q = Some (length h, h') \<and> length h' = Suc (length h) \<and>
           nxt h' = (nxt h)(p \<mapsto> length h, length h \<mapsto> q) \<and>
           prv h' = (prv h)(q \<mapsto> length h, length h \<mapsto> p) \<and>
           itm h' = (itm h)(length h \<mapsto> v) \<and>
           (\<forall>a. a \<noteq> length h \<longrightarrow> (cell h' a = None) = (cell h a = None)) \<and>
           cell h' (length h) \<noteq> None \<and>
           unchanged_outside h h' {p, q}"
proof -
  let ?a = "length h"
  let ?h1 = "h @ [Some \<lparr>mItem = v, mPrev = p, mNext = q\<rparr>]"
  from assms have lt: "p < length h" "q < length h"
    by (auto dest: cell_Some_less)
  have c1: "cell ?h1 p \<noteq> None" "cell ?h1 ?a \<noteq> None" "cell ?h1 q \<noteq> None"
    using assms lt by (auto simp: cell_alloc)
  from link_effect [OF c1(1,2)] obtain h2 where h2: "link ?h1 p ?a = Some h2"
    "length h2 = length ?h1" "nxt h2 = (nxt ?h1)(p \<mapsto> ?a)" "prv h2 = (prv ?h1)(?a \<mapsto> p)"
    "itm h2 = itm ?h1" "\<forall>a. (cell h2 a = None) = (cell ?h1 a = None)"
    "\<forall>a. a \<noteq> p \<longrightarrow> a \<noteq> ?a \<longrightarrow> cell h2 a = cell ?h1 a"
    by blast
  have c2: "cell h2 ?a \<noteq> None" "cell h2 q \<noteq> None"
    using h2(6) c1 by auto
  from link_effect [OF c2] obtain h3 where h3: "link h2 ?a q = Some h3"
    "length h3 = length h2" "nxt h3 = (nxt h2)(?a \<mapsto> q)" "prv h3 = (prv h2)(q \<mapsto> ?a)"
    "itm h3 = itm h2" "\<forall>a. (cell h3 a = None) = (cell h2 a = None)"
    "\<forall>a. a \<noteq> ?a \<longrightarrow> a \<noteq> q \<longrightarrow> cell h3 a = cell h2 a"
    by blast
  have r: "new_node_between h v p q = Some (?a, h3)"
    using h2(1) h3(1) by (simp add: new_node_between_def alloc_def)
  have n: "nxt h3 = (nxt h)(p \<mapsto> ?a, ?a \<mapsto> q)"
    using lt by (auto simp: h3 h2 fun_eq_iff nxt_alloc)
  have p: "prv h3 = (prv h)(q \<mapsto> ?a, ?a \<mapsto> p)"
    using lt by (auto simp: h3 h2 fun_eq_iff prv_alloc)
  have i: "itm h3 = (itm h)(?a \<mapsto> v)"
    by (auto simp: h3 h2 fun_eq_iff itm_alloc)
  have al: "\<forall>a. a \<noteq> ?a \<longrightarrow> (cell h3 a = None) = (cell h a = None)"
    using h3(6) h2(6) by (simp add: cell_alloc)
  have fr: "unchanged_outside h h3 {p, q}"
    using h3(2,7) h2(2,7) by (auto simp: unchanged_outside_def cell_alloc)
  have new: "cell h3 (length h) \<noteq> None"
    using h3(6) c2(1) by simp
  show ?thesis
    using r n p i al fr h3(2) h2(2) new by simp
qed

lemma in_set_tlD: "x \<in> set (tl xs) \<Longrightarrow> x \<in> set xs"
  by (cases xs) auto

lemma items_Cons_itm:
  "items h (a # as) = (case itm h a of None \<Rightarrow> [] | Some x \<Rightarrow> [x]) @ items h as"
  by (simp add: itm_def items.simps(2) split: option.split)

declare items.simps(2) [simp del]

declare items_Cons_itm [simp]

lemma items_cong: "(\<And>a. a \<in> set cs \<Longrightarrow> itm h' a = itm h a) \<Longrightarrow> items h' cs = items h cs"
  by (induction cs) simp_all

lemma items_append: "items h (xs @ ys) = items h xs @ items h ys"
  by (induction xs) simp_all

lemma items_single: "itm h a = Some x \<Longrightarrow> items h [a] = [x]"
  by simp

lemma links_insert:
  assumes l: "links h (xs @ p # q # ys)"
    and n: "nxt h' = (nxt h)(p \<mapsto> a, a \<mapsto> q)"
    and pv: "prv h' = (prv h)(q \<mapsto> a, a \<mapsto> p)"
    and al: "\<forall>b. b \<noteq> a \<longrightarrow> (cell h' b = None) = (cell h b = None)"
    and new: "cell h' a \<noteq> None"
    and fresh: "a \<notin> set (xs @ p # q # ys)"
    and d: "p \<notin> set xs" "p \<notin> set (butlast (q # ys))" "q \<notin> set ys" "q \<notin> set (tl (xs @ [p]))"
  shows "links h' (xs @ p # a # q # ys)"
proof -
  from l have l1: "links h (xs @ [p])" and l2: "links h (q # ys)"
    using links_append [of h xs p "q # ys"] by auto
  have a1: "a \<notin> set (butlast (xs @ [p]))" "a \<notin> set (tl (xs @ [p]))" "a \<notin> set (xs @ [p])"
    using fresh by (auto dest: in_set_tlD)
  have a2: "a \<notin> set (butlast (q # ys))" "a \<notin> set ys" "a \<notin> set (q # ys)"
    using fresh by (auto dest: in_set_butlastD)
  have "links h' (xs @ [p]) = links h (xs @ [p])"
  proof (rule links_cong)
    fix b assume "b \<in> set (butlast (xs @ [p]))"
    then show "nxt h' b = nxt h b" using a1(1) d(1) by (auto simp: n)
  next
    fix b assume "b \<in> set (tl (xs @ [p]))"
    then show "prv h' b = prv h b" using a1(2) d(4) by (auto simp: pv)
  next
    fix b assume "b \<in> set (xs @ [p])"
    then show "(cell h' b = None) = (cell h b = None)" using a1(3) al by metis
  qed
  moreover have "links h' (q # ys) = links h (q # ys)"
  proof (rule links_cong)
    fix b assume "b \<in> set (butlast (q # ys))"
    then show "nxt h' b = nxt h b" using a2(1) d(2) by (auto simp: n)
  next
    fix b assume "b \<in> set (tl (q # ys))"
    then show "prv h' b = prv h b" using a2(2) d(3) by (auto simp: pv)
  next
    fix b assume "b \<in> set (q # ys)"
    then show "(cell h' b = None) = (cell h b = None)" using a2(3) al by metis
  qed
  moreover have "nxt h' p = Some a" "prv h' a = Some p" "nxt h' a = Some q" "prv h' q = Some a"
    using fresh by (auto simp: n pv)
  ultimately have "links h' (xs @ [p])" "links h' (p # a # q # ys)"
    using l1 l2 by auto
  then show ?thesis
    using links_append [of h' xs p "a # q # ys"] by simp
qed

lemma links_less: "links h cs \<Longrightarrow> a \<in> set cs \<Longrightarrow> a < length h"
  using links_allocated [of h cs a] by (auto dest: cell_Some_less)

lemma chain_ring: "LinkedList_chain h l as \<Longrightarrow> ring h (mTail l) as"
  by (simp add: LinkedList_chain_def)

lemma ring_tail_allocated: "ring h t as \<Longrightarrow> cell h t \<noteq> None"
  by (auto simp: ring_def dest: links_allocated)

lemma ring_allocated: "ring h t as \<Longrightarrow> a \<in> set (t # as) \<Longrightarrow> cell h a \<noteq> None"
  unfolding ring_def using links_allocated [of h "t # as @ [t]" a] by auto

lemma ring_fresh: "ring h t as \<Longrightarrow> length h \<le> a \<Longrightarrow> a \<notin> set (t # as)"
  unfolding ring_def using links_less [of h "t # as @ [t]" a] by auto

lemma ring_prv_tail: "ring h t as \<Longrightarrow> prv h t = Some (last (t # as))"
proof -
  assume c: "ring h t as"
  obtain xs p where s: "t # as = xs @ [p]"
    by (cases "t # as" rule: rev_cases) auto
  have "t # as @ [t] = (t # as) @ [t]" by simp
  also have "\<dots> = xs @ [p, t]" unfolding s by simp
  finally have eq: "t # as @ [t] = xs @ [p, t]" .
  from c have "links h (xs @ [p, t])"
    unfolding ring_def eq by simp
  then have "prv h t = Some p"
    by (simp add: links_last_prv)
  moreover have "p = last (t # as)" unfolding s by simp
  ultimately show ?thesis by simp
qed

lemma ring_nxt_tail: "ring h t as \<Longrightarrow> nxt h t = Some (hd (as @ [t]))"
  by (cases as) (auto simp: ring_def)

lemma chain_allocated: "LinkedList_chain h l as \<Longrightarrow> a \<in> set as \<Longrightarrow> cell h a \<noteq> None"
  using ring_allocated [of h "mTail l" as a] by (simp add: LinkedList_chain_def)

lemma chain_fresh: "LinkedList_chain h l as \<Longrightarrow> length h \<notin> set (mTail l # as)"
  using ring_fresh [of h "mTail l" as "length h"] by (simp add: LinkedList_chain_def)

lemma LinkedList_add_links:
  assumes c: "ring h (mTail l) as"
  shows "\<exists>h'. LinkedList_add v l h = Some (l\<lparr>mSize_L := mSize_L l + 1\<rparr>, h') \<and>
           length h' = Suc (length h) \<and> ring h' (mTail l) (as @ [length h]) \<and>
           items h' (as @ [length h]) = items h as @ [v] \<and>
           unchanged_outside h h' (set (mTail l # as))"
proof -
  let ?t = "mTail l" and ?a = "length h"
  obtain xs p where s: "?t # as = xs @ [p]"
    by (cases "?t # as" rule: rev_cases) auto
  have p: "p = last (?t # as)" unfolding s by simp
  have sets: "set (?t # as) = insert p (set xs)"
    unfolding s by simp
  have "?t # as @ [?t] = (?t # as) @ [?t]" by simp
  also have "\<dots> = xs @ p # ?t # []" unfolding s by simp
  finally have s2: "?t # as @ [?t] = xs @ p # ?t # []" .
  from c have d: "distinct (xs @ [p])"
    using s [symmetric] by (simp add: ring_def)
  from c have l: "links h (xs @ p # ?t # [])"
    unfolding ring_def s2 by simp
  have fresh: "?a \<notin> set (?t # as)" using c by (rule ring_fresh) simp
  from c have tal: "cell h ?t \<noteq> None" by (rule ring_tail_allocated)
  then obtain tn where tn: "cell h ?t = Some tn" by auto
  from ring_prv_tail [OF c] have pt: "mPrev tn = p"
    using tn p by (simp add: prv_def)
  have pal: "cell h p \<noteq> None"
    using l links_allocated [of h "xs @ p # ?t # []" p] by simp
  from new_node_between_effect [OF pal tal, of v]
  obtain h' where h': "new_node_between h v p ?t = Some (?a, h')" "length h' = Suc ?a"
    "nxt h' = (nxt h)(p \<mapsto> ?a, ?a \<mapsto> ?t)" "prv h' = (prv h)(?t \<mapsto> ?a, ?a \<mapsto> p)"
    "itm h' = (itm h)(?a \<mapsto> v)" "\<forall>a. a \<noteq> ?a \<longrightarrow> (cell h' a = None) = (cell h a = None)"
    "cell h' ?a \<noteq> None" "unchanged_outside h h' {p, ?t}"
    by blast
  have r: "LinkedList_add v l h = Some (l\<lparr>mSize_L := mSize_L l + 1\<rparr>, h')"
    using tn pt h'(1) by (simp add: LinkedList_add_def)
  have tl: "?t \<notin> set (tl (xs @ [p]))"
    using c s [symmetric] by (simp add: ring_def)
  have li: "links h' (xs @ p # ?a # ?t # [])"
    using l h'(3,4,6,7) _ _ _ _ tl
  proof (rule links_insert)
    show "?a \<notin> set (xs @ [p, ?t])" using fresh sets by auto
    show "p \<notin> set xs" using d by simp
  qed simp_all
  have "?t # (as @ [?a]) @ [?t] = (?t # as) @ [?a, ?t]"
    by simp
  also have "\<dots> = xs @ p # ?a # ?t # []"
    unfolding s by simp
  finally have lk: "links h' (?t # (as @ [?a]) @ [?t])"
    using li by (simp only:)
  have dist: "distinct (?t # as @ [?a])"
    using c fresh by (auto simp: ring_def)
  have "items h' as = items h as"
    using fresh by (intro items_cong) (auto simp: h'(5))
  then have it: "items h' (as @ [?a]) = items h as @ [v]"
    by (simp add: items_append h'(5))
  have "p \<in> set (?t # as)" using sets by simp
  then have fr: "unchanged_outside h h' (set (?t # as))"
    using h'(8) by (auto simp: unchanged_outside_def)
  from r h'(2) dist lk it fr show ?thesis by (simp add: ring_def)
qed

lemma advance_links:
  "links h (c # cs) \<Longrightarrow> k \<le> length cs \<Longrightarrow> advance h c k = Some ((c # cs) ! k)"
proof (induction k arbitrary: c cs)
  case 0
  then show ?case by simp
next
  case (Suc k)
  then obtain d ds where cs: "cs = d # ds" by (cases cs) auto
  with Suc.prems have "nxt h c = Some d" "links h (d # ds)" "k \<le> length ds"
    by auto
  with Suc.IH [of d ds] cs show ?case
    by (auto simp: nxt_Some_iff)
qed

lemma items_map:
  "(\<And>a. a \<in> set as \<Longrightarrow> cell h a \<noteq> None) \<Longrightarrow> items h as = map (\<lambda>a. mItem (the (cell h a))) as"
proof (induction as)
  case Nil
  show ?case by simp
next
  case (Cons a as)
  from Cons.prems [of a] obtain n where "cell h a = Some n" by auto
  with Cons show ?case by (simp add: items.simps(2) del: items_Cons_itm)
qed

lemma chain_items_length: "LinkedList_chain h l as \<Longrightarrow> length (items h as) = length as"
  using items_map [of as h] chain_allocated [of h l as] by simp

lemma chain_items_nth:
  assumes "LinkedList_chain h l as" and "i < length as"
  shows "itm h (as ! i) = Some (items h as ! i)"
proof -
  have "items h as = map (\<lambda>a. mItem (the (cell h a))) as"
    using chain_allocated [OF assms(1)] by (rule items_map)
  moreover have "cell h (as ! i) \<noteq> None"
    using assms(2) by (intro chain_allocated [OF assms(1)]) simp
  ultimately show ?thesis
    using assms(2) by (auto simp: itm_def)
qed

lemma ring_begin: "ring h (mTail l) as \<Longrightarrow> LinkedList_begin l h = Some (hd (as @ [mTail l]))"
  using ring_nxt_tail [of h "mTail l" as] by (simp add: LinkedList_begin_def nxt_def)

lemma chain_begin: "LinkedList_chain h l as \<Longrightarrow> LinkedList_begin l h = Some (hd (as @ [mTail l]))"
  by (simp add: LinkedList_chain_def ring_begin)

lemma ring_advance:
  assumes c: "ring h t as" and k: "k \<le> length as"
  shows "advance h (hd (as @ [t])) k = Some ((as @ [t]) ! k)"
proof -
  obtain d ds where s: "as @ [t] = d # ds" by (cases "as @ [t]") auto
  then have len: "length ds = length as"
    by (metis length_append_singleton length_Cons nat.inject)
  from c have "links h (d # ds)"
    using s by (simp add: ring_def)
  from advance_links [OF this, of k] k len show ?thesis
    by (simp add: s)
qed

lemma chain_advance:
  assumes c: "LinkedList_chain h l as" and k: "k \<le> length as"
  shows "advance h (hd (as @ [mTail l])) k = Some ((as @ [mTail l]) ! k)"
  using ring_advance [OF chain_ring [OF c] k] .

lemma LinkedList_get_throws:
  "mSize_L l \<le> index \<Longrightarrow> LinkedList_get index l h = Throws (OutOfRange index) (l, h)"
  by (simp add: LinkedList_get_def LinkedList_rangeCheck_def)

lemma LinkedList_set_throws:
  "mSize_L l \<le> index \<Longrightarrow> LinkedList_set index v l h = Throws (OutOfRange index) (l, h)"
  by (simp add: LinkedList_set_def LinkedList_rangeCheck_def)

lemma LinkedList_remove_throws:
  "mSize_L l \<le> index \<Longrightarrow> LinkedList_remove index l h = Throws (OutOfRange index) (l, h)"
  by (simp add: LinkedList_remove_def LinkedList_rangeCheck_def)


lemma free_effect:
  assumes "cell h a \<noteq> None"
  shows "free h a = Some (h[a := None])" and "nxt (h[a := None]) = (nxt h)(a := None)"
    and "prv (h[a := None]) = (prv h)(a := None)" and "itm (h[a := None]) = (itm h)(a := None)"
    and "cell (h[a := None]) b = (if b = a then None else cell h b)"
proof -
  from assms have "a < length h" by (auto dest: cell_Some_less)
  with assms show "free h a = Some (h[a := None])" and "nxt (h[a := None]) = (nxt h)(a := None)"
    and "prv (h[a := None]) = (prv h)(a := None)" and "itm (h[a := None]) = (itm h)(a := None)"
    and "cell (h[a := None]) b = (if b = a then None else cell h b)"
    by (auto simp: free_def nxt_def prv_def itm_def cell_update fun_eq_iff)
qed

lemma delete_node_effect:
  assumes a: "nxt h a = Some q" "prv h a = Some p" and pq: "cell h p \<noteq> None" "cell h q \<noteq> None"
  shows "\<exists>h'. delete_node h a = Some h' \<and> length h' = length h \<and>
           nxt h' = (nxt h)(p \<mapsto> q, a := None) \<and> prv h' = (prv h)(q \<mapsto> p, a := None) \<and>
           itm h' = (itm h)(a := None) \<and>
           (\<forall>b. b \<noteq> a \<longrightarrow> (cell h' b = None) = (cell h b = None)) \<and> cell h' a = None \<and>
           unchanged_outside h h' {a, p, q}"
proof -
  from a obtain n where n: "cell h a = Some n" "mNext n = q" "mPrev n = p"
    by (auto simp: nxt_Some_iff prv_Some_iff)
  from link_effect [OF pq] obtain h1 where h1: "link h p q = Some h1" "length h1 = length h"
    "nxt h1 = (nxt h)(p \<mapsto> q)" "prv h1 = (prv h)(q \<mapsto> p)" "itm h1 = itm h"
    "\<forall>b. (cell h1 b = None) = (cell h b = None)" "\<forall>b. b \<noteq> p \<longrightarrow> b \<noteq> q \<longrightarrow> cell h1 b = cell h b"
    by blast
  have al: "cell h1 a \<noteq> None" using h1(6) n(1) by simp
  note f = free_effect [OF al]
  have r: "delete_node h a = Some (h1[a := None])"
    using n h1(1) f(1) by (simp add: delete_node_def)
  have fr: "unchanged_outside h (h1[a := None]) {a, p, q}"
    using h1(2,7) by (auto simp: unchanged_outside_def f(5))
  show ?thesis
    using r h1 f(2-5) fr by simp
qed

lemma links_splice:
  assumes "links h (xs @ [p])" and "links h (q # ys)" and "links h' (p # ms @ [q])"
    and "\<And>b. b \<in> set xs \<Longrightarrow> nxt h' b = nxt h b"
    and "\<And>b. b \<in> set (tl (xs @ [p])) \<Longrightarrow> prv h' b = prv h b"
    and "\<And>b. b \<in> set (butlast (q # ys)) \<Longrightarrow> nxt h' b = nxt h b"
    and "\<And>b. b \<in> set ys \<Longrightarrow> prv h' b = prv h b"
    and "\<And>b. b \<in> set (xs @ p # q # ys) \<Longrightarrow> (cell h' b = None) = (cell h b = None)"
  shows "links h' (xs @ p # ms @ q # ys)"
proof -
  have "links h' (xs @ [p]) = links h (xs @ [p])"
    using assms(4,5,8) by (intro links_cong) auto
  moreover have "links h' (q # ys) = links h (q # ys)"
    using assms(6,7,8) by (intro links_cong) auto
  ultimately have 1: "links h' (xs @ [p])" and 2: "links h' (q # ys)"
    using assms(1,2) by auto
  from assms(3) 2 have "links h' ((p # ms) @ q # ys)"
    using links_append [of h' "p # ms" q ys] by simp
  with 1 show ?thesis
    using links_append [of h' xs p "ms @ q # ys"] by simp
qed

text \<open>The chain of a list, cut at a position.\<close>

lemma chain_cut:
  assumes c: "distinct (t # as1 @ ms @ as2)" and l: "links h (t # as1 @ ms @ as2 @ [t])"
  obtains xs p q ys where "t # as1 = xs @ [p]" and "as2 @ [t] = q # ys"
    and "links h (xs @ [p])" and "links h (q # ys)" and "links h (p # ms @ [q])"
    and "p \<notin> set xs" and "p \<notin> set (butlast (q # ys))" and "q \<notin> set ys"
    and "q \<notin> set (tl (xs @ [p]))" and "set ms \<inter> set (xs @ p # q # ys) = {}"
    and "p = last (t # as1)" and "q = hd (as2 @ [t])"
proof -
  obtain xs p where s1: "t # as1 = xs @ [p]"
    by (cases "t # as1" rule: rev_cases) auto
  obtain q ys where s2: "as2 @ [t] = q # ys"
    by (cases "as2 @ [t]") auto
  have set1: "set (t # as1) = insert p (set xs)" unfolding s1 by simp
  have set2: "insert t (set as2) = insert q (set ys)"
    using arg_cong [OF s2, of set] by simp
  have d1: "distinct (xs @ [p])" using c s1 [symmetric] by simp
  have d2: "distinct (q # ys)" using c s2 [symmetric] by simp
  have b2: "butlast (q # ys) = as2" using s2 [symmetric] by (simp add: butlast_append)
  have t1: "tl (xs @ [p]) = as1" using s1 [symmetric] by simp
  have "t # as1 @ ms @ as2 @ [t] = (t # as1) @ ms @ (as2 @ [t])"
    by simp
  also have "\<dots> = xs @ p # ms @ q # ys"
    unfolding s1 s2 by simp
  finally have eq: "t # as1 @ ms @ as2 @ [t] = xs @ p # ms @ q # ys" .
  have lk: "links h (xs @ p # ms @ q # ys)" using l unfolding eq .
  then have l1: "links h (xs @ [p])" and l2': "links h (p # ms @ q # ys)"
    using links_append [of h xs p "ms @ q # ys"] by auto
  from l2' have l2: "links h (p # ms @ [q])" and l3: "links h (q # ys)"
    using links_append [of h "p # ms" q ys] by auto
  have p1: "p \<notin> set xs" using d1 by simp
  have p2: "p \<notin> set (butlast (q # ys))" using c set1 b2 by auto
  have q1: "q \<notin> set ys" using d2 by simp
  have q2: "q \<notin> set (tl (xs @ [p]))" using c set2 t1 by auto
  have m: "set ms \<inter> set (xs @ p # q # ys) = {}"
  proof -
    have "set (xs @ p # q # ys) = insert t (set as1 \<union> set as2)"
      using set1 set2 by auto
    with c show ?thesis by auto
  qed
  have pl: "p = last (t # as1)" unfolding s1 by simp
  have qh: "q = hd (as2 @ [t])" unfolding s2 by simp
  from s1 s2 l1 l3 l2 p1 p2 q1 q2 m pl qh show ?thesis
    by (rule that)
qed

lemma chain_plug:
  assumes d: "distinct (t # as1 @ ms @ as2)" and l: "links h (t # as1 @ ms @ as2 @ [t])"
    and mid: "links h' (last (t # as1) # ms' @ [hd (as2 @ [t])])"
    and n: "\<And>b. b \<in> set (t # as1 @ as2) \<Longrightarrow> b \<noteq> last (t # as1) \<Longrightarrow> nxt h' b = nxt h b"
    and p: "\<And>b. b \<in> set (t # as1 @ as2) \<Longrightarrow> b \<noteq> hd (as2 @ [t]) \<Longrightarrow> prv h' b = prv h b"
    and al: "\<And>b. b \<in> set (t # as1 @ as2) \<Longrightarrow> (cell h' b = None) = (cell h b = None)"
  shows "links h' (t # as1 @ ms' @ as2 @ [t])"
proof -
  from d l obtain xs p q ys where s: "t # as1 = xs @ [p]" "as2 @ [t] = q # ys"
    and lk: "links h (xs @ [p])" "links h (q # ys)"
    and dd: "p \<notin> set xs" "p \<notin> set (butlast (q # ys))" "q \<notin> set ys" "q \<notin> set (tl (xs @ [p]))"
    and pq: "p = last (t # as1)" "q = hd (as2 @ [t])"
    by (rule chain_cut)
  have set1: "set (t # as1) = insert p (set xs)" unfolding s(1) by simp
  have set2: "insert t (set as2) = insert q (set ys)"
    using arg_cong [OF s(2), of set] by simp
  have sub1: "set xs \<subseteq> set (t # as1 @ as2)" using set1 by auto
  have sub2: "set ys \<subseteq> set (t # as1 @ as2)" using set2 by auto
  have sub3: "set (tl (xs @ [p])) \<subseteq> set (t # as1 @ as2)"
    using s(1) [symmetric] by auto
  have sub4: "set (butlast (q # ys)) \<subseteq> set (t # as1 @ as2)"
    using s(2) [symmetric] by (auto simp: butlast_append)
  have sub5: "set (xs @ p # q # ys) \<subseteq> set (t # as1 @ as2)"
    using set1 set2 by auto
  have sp: "links h' (xs @ p # ms' @ q # ys)"
  proof (rule links_splice [OF lk])
    show "links h' (p # ms' @ [q])" using mid pq by simp
  next
    fix b assume "b \<in> set xs"
    then show "nxt h' b = nxt h b" using sub1 dd(1) pq(1) by (intro n) auto
  next
    fix b assume "b \<in> set (tl (xs @ [p]))"
    then show "prv h' b = prv h b" using sub3 dd(4) pq(2) by (intro p) auto
  next
    fix b assume "b \<in> set (butlast (q # ys))"
    then show "nxt h' b = nxt h b" using sub4 dd(2) pq(1) by (intro n) auto
  next
    fix b assume "b \<in> set ys"
    then show "prv h' b = prv h b" using sub2 dd(3) pq(2) by (intro p) auto
  next
    fix b assume "b \<in> set (xs @ p # q # ys)"
    then show "(cell h' b = None) = (cell h b = None)" using sub5 by (intro al) auto
  qed
  have "t # as1 @ ms' @ as2 @ [t] = (t # as1) @ ms' @ (as2 @ [t])"
    by simp
  also have "\<dots> = xs @ p # ms' @ q # ys"
    unfolding s by simp
  finally show ?thesis
    using sp by (simp only:)
qed

lemma chain_neighbours:
  assumes d: "distinct (t # as1 @ a # as2)" and l: "links h (t # as1 @ a # as2 @ [t])"
  shows "prv h a = Some (last (t # as1))" and "nxt h a = Some (hd (as2 @ [t]))"
proof -
  from d l have "links h (last (t # as1) # [a] @ [hd (as2 @ [t])])"
    using chain_cut [of t as1 "[a]" as2 h] by (metis append_Cons append_Nil)
  then show "prv h a = Some (last (t # as1))" and "nxt h a = Some (hd (as2 @ [t]))"
    by simp_all
qed

lemma chain_gap:
  assumes d: "distinct (t # as1 @ as2)" and l: "links h (t # as1 @ as2 @ [t])"
  shows "prv h (hd (as2 @ [t])) = Some (last (t # as1))"
    and "nxt h (last (t # as1)) = Some (hd (as2 @ [t]))"
proof -
  from d l have "links h (last (t # as1) # [] @ [hd (as2 @ [t])])"
    using chain_cut [of t as1 "[]" as2 h] by (metis append_Nil)
  then show "prv h (hd (as2 @ [t])) = Some (last (t # as1))"
    and "nxt h (last (t # as1)) = Some (hd (as2 @ [t]))"
    by simp_all
qed

lemma items_take:
  assumes "\<And>a. a \<in> set as \<Longrightarrow> cell h a \<noteq> None"
  shows "items h (take i as) = take i (items h as)" and "items h (drop i as) = drop i (items h as)"
proof -
  have 1: "items h as = map (\<lambda>a. mItem (the (cell h a))) as"
    using assms by (rule items_map)
  have 2: "items h (take i as) = map (\<lambda>a. mItem (the (cell h a))) (take i as)"
    using assms by (intro items_map) (auto dest: in_set_takeD)
  have 3: "items h (drop i as) = map (\<lambda>a. mItem (the (cell h a))) (drop i as)"
    using assms by (intro items_map) (auto dest: in_set_dropD)
  show "items h (take i as) = take i (items h as)" by (simp add: 1 2 take_map)
  show "items h (drop i as) = drop i (items h as)" by (simp add: 1 3 drop_map)
qed

lemma LinkedList_add_at_insert:
  assumes c: "LinkedList_chain h l (as1 @ as2)" and i: "index < mSize_L l"
    and len: "unat index = length as1"
  shows "\<exists>h'. LinkedList_add_at index v l h = Some (l\<lparr>mSize_L := mSize_L l + 1\<rparr>, h') \<and>
           length h' = Suc (length h) \<and>
           distinct (mTail l # as1 @ length h # as2) \<and>
           links h' (mTail l # (as1 @ length h # as2) @ [mTail l]) \<and>
           items h' (as1 @ length h # as2) = items h as1 @ v # items h as2 \<and>
           unchanged_outside h h' (set (mTail l # as1 @ as2))"
proof -
  let ?t = "mTail l" and ?a = "length h" and ?i = "unat index"
  let ?as = "as1 @ as2"
  from c i have lt: "?i < length ?as"
    by (simp add: LinkedList_chain_def ring_def word_less_nat_alt)
  then have ne: "as2 \<noteq> []" using len by auto
  from c have d: "distinct (?t # as1 @ [] @ as2)" and l: "links h (?t # as1 @ [] @ as2 @ [?t])"
    by (simp_all add: LinkedList_chain_def ring_def)
  let ?p = "last (?t # as1)" and ?q = "hd (as2 @ [?t])"
  have q: "(?as @ [?t]) ! ?i = ?q"
    unfolding len using ne by (cases as2) (simp_all add: nth_append)
  have qin: "?q \<in> set ?as" using ne by simp
  have pin: "?p \<in> set (?t # ?as)"
    using last_in_set [of "?t # as1"] by auto
  from chain_gap [of ?t as1 as2 h] d l have g: "prv h ?q = Some ?p" "nxt h ?p = Some ?q"
    by simp_all
  then obtain nd where nd: "cell h ?q = Some nd" "mPrev nd = ?p"
    by (auto simp: prv_Some_iff)
  have pal: "cell h ?p \<noteq> None" using g(2) by (auto simp: nxt_def)
  have qal: "cell h ?q \<noteq> None" using nd by simp
  have adv: "advance h (hd (?as @ [?t])) ?i = Some ?q"
    using chain_advance [OF c, of ?i] lt by (simp only: q less_imp_le)
  from new_node_between_effect [OF pal qal, of v]
  obtain h' where h': "new_node_between h v ?p ?q = Some (?a, h')" "length h' = Suc ?a"
    "nxt h' = (nxt h)(?p \<mapsto> ?a, ?a \<mapsto> ?q)" "prv h' = (prv h)(?q \<mapsto> ?a, ?a \<mapsto> ?p)"
    "itm h' = (itm h)(?a \<mapsto> v)" "\<forall>a. a \<noteq> ?a \<longrightarrow> (cell h' a = None) = (cell h a = None)"
    "cell h' ?a \<noteq> None" "unchanged_outside h h' {?p, ?q}"
    by blast
  have r: "LinkedList_add_at index v l h = Some (l\<lparr>mSize_L := mSize_L l + 1\<rparr>, h')"
    using i adv nd h'(1) chain_begin [OF c] by (simp add: LinkedList_add_at_def)
  have fresh: "?a \<notin> set (?t # ?as)" using c by (rule chain_fresh)
  have pa: "?p \<noteq> ?a" "?q \<noteq> ?a" using fresh pin qin by auto
  have lk: "links h' (?t # as1 @ [?a] @ as2 @ [?t])"
  proof (rule chain_plug [OF d l])
    show "links h' (?p # [?a] @ [?q])"
      using pa h'(6) qal by (simp add: h'(3,4))
  next
    fix b assume "b \<in> set (?t # as1 @ as2)" "b \<noteq> ?p"
    then show "nxt h' b = nxt h b" using fresh by (auto simp: h'(3))
  next
    fix b assume "b \<in> set (?t # as1 @ as2)" "b \<noteq> ?q"
    then show "prv h' b = prv h b" using fresh by (auto simp: h'(4))
  next
    fix b assume "b \<in> set (?t # as1 @ as2)"
    then show "(cell h' b = None) = (cell h b = None)" using fresh h'(6) by metis
  qed
  have dist: "distinct (?t # as1 @ ?a # as2)"
    using d fresh by auto
  have i1: "items h' as1 = items h as1" "items h' as2 = items h as2"
    using fresh by (auto intro!: items_cong simp: h'(5))
  have it: "items h' (as1 @ ?a # as2) = items h as1 @ v # items h as2"
    by (simp add: items_append i1 h'(5))
  have fr: "unchanged_outside h h' (set (?t # ?as))"
    using h'(8) pin qin by (auto simp: unchanged_outside_def)
  from r h'(2) dist lk it fr show ?thesis by simp
qed

lemma LinkedList_remove_ok:
  assumes c: "LinkedList_chain h l (as1 @ a # as2)" and len: "unat index = length as1"
  shows "\<exists>h'. LinkedList_remove index l h = Returns () (l\<lparr>mSize_L := mSize_L l - 1\<rparr>, h') \<and>
           length h' = length h \<and>
           LinkedList_chain h' (l\<lparr>mSize_L := mSize_L l - 1\<rparr>) (as1 @ as2) \<and>
           items h' (as1 @ as2) = items h as1 @ items h as2 \<and>
           cell h' a = None \<and>
           unchanged_outside h h' (set (mTail l # as1 @ a # as2))"
proof -
  let ?t = "mTail l" and ?i = "unat index"
  let ?as = "as1 @ a # as2"
  from c have n: "length ?as = unat (mSize_L l)"
    by (simp add: LinkedList_chain_def ring_def)
  with len have i: "index < mSize_L l"
    by (simp add: word_less_nat_alt)
  have nz: "mSize_L l \<noteq> 0" using n by auto
  from c have d: "distinct (?t # as1 @ [a] @ as2)" and l: "links h (?t # as1 @ [a] @ as2 @ [?t])"
    by (simp_all add: LinkedList_chain_def ring_def)
  let ?p = "last (?t # as1)" and ?q = "hd (as2 @ [?t])"
  have pin: "?p \<in> set (?t # as1)" by (rule last_in_set) simp
  have qin: "?q \<in> set (as2 @ [?t])" by (rule hd_in_set) simp
  have pa: "?p \<noteq> a" using d pin by auto
  have qa: "?q \<noteq> a" using d qin by auto
  from chain_neighbours [of ?t as1 a as2 h] d l
  have nb: "prv h a = Some ?p" "nxt h a = Some ?q" by simp_all
  have pal: "cell h ?p \<noteq> None"
    using links_allocated [OF l, of ?p] pin by auto
  have qal: "cell h ?q \<noteq> None"
    using links_allocated [OF l, of ?q] qin by auto
  have adv: "advance h (hd (?as @ [?t])) ?i = Some a"
    using chain_advance [OF c, of ?i] unfolding len by (simp add: nth_append)
  from delete_node_effect [OF nb(2,1) pal qal]
  obtain h' where h': "delete_node h a = Some h'" "length h' = length h"
    "nxt h' = (nxt h)(?p \<mapsto> ?q, a := None)" "prv h' = (prv h)(?q \<mapsto> ?p, a := None)"
    "itm h' = (itm h)(a := None)" "\<forall>b. b \<noteq> a \<longrightarrow> (cell h' b = None) = (cell h b = None)"
    "cell h' a = None" "unchanged_outside h h' {a, ?p, ?q}"
    by blast
  have r: "LinkedList_remove index l h = Returns () (l\<lparr>mSize_L := mSize_L l - 1\<rparr>, h')"
    using i adv h'(1) chain_begin [OF c]
    by (simp add: LinkedList_remove_def LinkedList_rangeCheck_def removeNode_def)
  have notin: "a \<notin> set (?t # as1 @ as2)" using d by auto
  have lk: "links h' (?t # as1 @ [] @ as2 @ [?t])"
  proof (rule chain_plug [OF d l])
    show "links h' (?p # [] @ [?q])"
      using pa qa qal h'(6) by (simp add: h'(3,4))
  next
    fix b assume "b \<in> set (?t # as1 @ as2)" "b \<noteq> ?p"
    then show "nxt h' b = nxt h b" using notin by (auto simp: h'(3))
  next
    fix b assume "b \<in> set (?t # as1 @ as2)" "b \<noteq> ?q"
    then show "prv h' b = prv h b" using notin by (auto simp: h'(4))
  next
    fix b assume "b \<in> set (?t # as1 @ as2)"
    then show "(cell h' b = None) = (cell h b = None)" using notin h'(6) by metis
  qed
  have sz: "length (as1 @ as2) = unat (mSize_L l - 1)"
    using n nz by (simp add: unat_minus_one)
  have ch: "LinkedList_chain h' (l\<lparr>mSize_L := mSize_L l - 1\<rparr>) (as1 @ as2)"
    using d lk sz by (simp add: LinkedList_chain_def ring_def)
  have "items h' (as1 @ as2) = items h (as1 @ as2)"
    using notin by (intro items_cong) (auto simp: h'(5))
  then have it: "items h' (as1 @ as2) = items h as1 @ items h as2"
    by (simp add: items_append)
  have fr: "unchanged_outside h h' (set (?t # ?as))"
    using h'(8) pin qin by (auto simp: unchanged_outside_def)
  from r h'(2,7) ch it fr show ?thesis by simp
qed

lemma LinkedList_set_ok:
  assumes c: "LinkedList_chain h l (as1 @ a # as2)" and len: "unat index = length as1"
  shows "\<exists>h'. LinkedList_set index v l h = Returns () (l, h') \<and>
           length h' = Suc (length h) \<and>
           LinkedList_chain h' l (as1 @ length h # as2) \<and>
           items h' (as1 @ length h # as2) = items h as1 @ v # items h as2 \<and>
           cell h' a = None \<and>
           unchanged_outside h h' (set (mTail l # as1 @ a # as2))"
proof -
  let ?t = "mTail l" and ?i = "unat index" and ?b = "length h"
  let ?as = "as1 @ a # as2"
  from c have n: "length ?as = unat (mSize_L l)"
    by (simp add: LinkedList_chain_def ring_def)
  with len have i: "index < mSize_L l"
    by (simp add: word_less_nat_alt)
  from c have d: "distinct (?t # as1 @ [a] @ as2)" and l: "links h (?t # as1 @ [a] @ as2 @ [?t])"
    by (simp_all add: LinkedList_chain_def ring_def)
  let ?p = "last (?t # as1)" and ?q = "hd (as2 @ [?t])"
  have pin: "?p \<in> set (?t # as1)" by (rule last_in_set) simp
  have qin: "?q \<in> set (as2 @ [?t])" by (rule hd_in_set) simp
  have pa: "?p \<noteq> a" using d pin by auto
  have qa: "?q \<noteq> a" using d qin by auto
  from chain_neighbours [of ?t as1 a as2 h] d l
  have nb: "prv h a = Some ?p" "nxt h a = Some ?q" by simp_all
  then obtain nd where nd: "cell h a = Some nd" "mPrev nd = ?p" "mNext nd = ?q"
    by (auto simp: prv_Some_iff nxt_Some_iff)
  have pal: "cell h ?p \<noteq> None"
    using links_allocated [OF l, of ?p] pin by auto
  have qal: "cell h ?q \<noteq> None"
    using links_allocated [OF l, of ?q] qin by auto
  have adv: "advance h (hd (?as @ [?t])) ?i = Some a"
    using chain_advance [OF c, of ?i] unfolding len by (simp add: nth_append)
  have fresh: "?b \<notin> set (?t # ?as)" using c by (rule chain_fresh)
  then have ab: "a \<noteq> ?b" by auto
  from new_node_between_effect [OF pal qal, of v]
  obtain h1 where h1: "new_node_between h v ?p ?q = Some (?b, h1)" "length h1 = Suc ?b"
    "nxt h1 = (nxt h)(?p \<mapsto> ?b, ?b \<mapsto> ?q)" "prv h1 = (prv h)(?q \<mapsto> ?b, ?b \<mapsto> ?p)"
    "itm h1 = (itm h)(?b \<mapsto> v)" "\<forall>x. x \<noteq> ?b \<longrightarrow> (cell h1 x = None) = (cell h x = None)"
    "cell h1 ?b \<noteq> None" "unchanged_outside h h1 {?p, ?q}"
    by blast
  have a1: "cell h1 a \<noteq> None" using h1(6) ab nd(1) by simp
  from link_effect [OF a1 a1]
  obtain h2 where h2: "link h1 a a = Some h2" "length h2 = length h1"
    "nxt h2 = (nxt h1)(a \<mapsto> a)" "prv h2 = (prv h1)(a \<mapsto> a)" "itm h2 = itm h1"
    "\<forall>x. (cell h2 x = None) = (cell h1 x = None)" "\<forall>x. x \<noteq> a \<longrightarrow> x \<noteq> a \<longrightarrow> cell h2 x = cell h1 x"
    by blast
  have a2: "nxt h2 a = Some a" "prv h2 a = Some a" "cell h2 a \<noteq> None"
    using h2(6) a1 by (simp_all add: h2(3,4))
  from delete_node_effect [OF a2(1,2) a2(3) a2(3)]
  obtain h3 where h3: "delete_node h2 a = Some h3" "length h3 = length h2"
    "nxt h3 = (nxt h2)(a \<mapsto> a, a := None)" "prv h3 = (prv h2)(a \<mapsto> a, a := None)"
    "itm h3 = (itm h2)(a := None)" "\<forall>x. x \<noteq> a \<longrightarrow> (cell h3 x = None) = (cell h2 x = None)"
    "cell h3 a = None" "unchanged_outside h2 h3 {a, a, a}"
    by blast
  have r: "LinkedList_set index v l h = Returns () (l, h3)"
    using i adv nd h1(1) h2(1) h3(1) chain_begin [OF c]
    by (simp add: LinkedList_set_def LinkedList_rangeCheck_def)
  have nx: "nxt h3 = (nxt h)(?p \<mapsto> ?b, ?b \<mapsto> ?q, a := None)"
    by (simp add: h3(3) h2(3) h1(3))
  have px: "prv h3 = (prv h)(?q \<mapsto> ?b, ?b \<mapsto> ?p, a := None)"
    by (simp add: h3(4) h2(4) h1(4))
  have ix: "itm h3 = (itm h)(?b \<mapsto> v, a := None)"
    by (simp add: h3(5) h2(5) h1(5))
  have alx: "\<forall>x. x \<noteq> a \<longrightarrow> x \<noteq> ?b \<longrightarrow> (cell h3 x = None) = (cell h x = None)"
    using h3(6) h2(6) h1(6) by simp
  have newb: "cell h3 ?b \<noteq> None"
    using h3(6) h2(6) h1(7) ab by metis
  have notin: "a \<notin> set (?t # as1 @ as2)" using d by auto
  have fresh': "?b \<notin> set (?t # as1 @ as2)" using fresh by auto
  have pb: "?p \<noteq> ?b" "?q \<noteq> ?b" using fresh pin qin by auto
  have lk: "links h3 (?t # as1 @ [?b] @ as2 @ [?t])"
  proof (rule chain_plug [OF d l])
    show "links h3 (?p # [?b] @ [?q])"
      using pa qa pb ab qal alx by (simp add: nx px)
  next
    fix x assume "x \<in> set (?t # as1 @ as2)" "x \<noteq> ?p"
    then show "nxt h3 x = nxt h x" using notin fresh' by (auto simp: nx)
  next
    fix x assume "x \<in> set (?t # as1 @ as2)" "x \<noteq> ?q"
    then show "prv h3 x = prv h x" using notin fresh' by (auto simp: px)
  next
    fix x assume "x \<in> set (?t # as1 @ as2)"
    then show "(cell h3 x = None) = (cell h x = None)" using notin fresh' alx by metis
  qed
  have dist: "distinct (?t # as1 @ ?b # as2)"
    using d fresh by auto
  have ch: "LinkedList_chain h3 l (as1 @ ?b # as2)"
    using dist lk n by (simp add: LinkedList_chain_def ring_def)
  have i1: "items h3 as1 = items h as1" "items h3 as2 = items h as2"
    using notin fresh' by (auto intro!: items_cong simp: ix)
  have it: "items h3 (as1 @ ?b # as2) = items h as1 @ v # items h as2"
    using ab by (simp add: items_append i1 ix)
  have fr: "unchanged_outside h h3 (set (?t # ?as))"
  proof -
    have "cell h3 x = cell h x" if "x < length h" "x \<notin> set (?t # ?as)" for x
    proof -
      from that pin qin have "x \<noteq> a" "x \<noteq> ?p" "x \<noteq> ?q" by auto
      then show ?thesis
        using that h1(8) h2(7) h3(8) h1(2) h2(2)
        by (auto simp: unchanged_outside_def)
    qed
    then show ?thesis
      using h1(2) h2(2) h3(2) by (simp add: unchanged_outside_def)
  qed
  from r h1(2) h2(2) h3(2,7) ch it fr show ?thesis by simp
qed

lemma links_frame:
  assumes "links h cs" and "unchanged_outside h h' A" and "A \<inter> set cs = {}"
  shows "links h' cs"
proof -
  have eq: "cell h' a = cell h a" if "a \<in> set cs" for a
  proof -
    from that assms(1) have "a < length h" by (auto dest: links_less)
    with that assms(2,3) show ?thesis by (auto simp: unchanged_outside_def)
  qed
  have "links h' cs = links h cs"
    by (rule links_cong) (auto simp: nxt_def prv_def eq dest: in_set_butlastD in_set_tlD)
  with assms(1) show ?thesis by simp
qed

lemma ring_frame:
  assumes "ring h t as" and "unchanged_outside h h' A" and "A \<inter> set (t # as) = {}"
  shows "ring h' t as" and "items h' as = items h as"
proof -
  have eq: "cell h' a = cell h a" if "a \<in> set (t # as)" for a
  proof -
    from that assms(1) have "a < length h"
      using ring_allocated [of h t as a] by (auto dest: cell_Some_less)
    with that assms(2,3) show ?thesis by (auto simp: unchanged_outside_def)
  qed
  show "ring h' t as"
    using assms links_frame [of h "t # as @ [t]" h' A] by (auto simp: ring_def)
  show "items h' as = items h as"
    by (rule items_cong) (simp add: itm_def eq)
qed

lemma chain_frame:
  assumes "LinkedList_chain h l as" and "unchanged_outside h h' A" and "A \<inter> set (mTail l # as) = {}"
  shows "LinkedList_chain h' l as" and "items h' as = items h as"
  using assms ring_frame [of h "mTail l" as h' A] by (simp_all add: LinkedList_chain_def)

lemma unchanged_outside_trans:
  assumes 1: "unchanged_outside h h1 A" and 2: "unchanged_outside h1 h2 B"
    and 3: "\<And>a. a \<in> B \<Longrightarrow> a < length h \<Longrightarrow> a \<in> C" and 4: "A \<subseteq> C"
  shows "unchanged_outside h h2 C"
proof -
  have len: "length h \<le> length h1" "length h1 \<le> length h2"
    using 1 2 by (simp_all add: unchanged_outside_def)
  have "cell h2 a = cell h a" if a: "a < length h" "a \<notin> C" for a
  proof -
    from a 3 [of a] have "a \<notin> B" by auto
    moreover from a len have "a < length h1" by simp
    ultimately have "cell h2 a = cell h1 a"
      using 2 by (simp add: unchanged_outside_def)
    moreover from a 4 have "a \<notin> A" by auto
    then have "cell h1 a = cell h a"
      using 1 a by (simp add: unchanged_outside_def)
    ultimately show ?thesis by simp
  qed
  with len show ?thesis by (simp add: unchanged_outside_def)
qed

lemma unchanged_outside_alloc: "unchanged_outside h (h @ [x]) A"
  by (simp add: unchanged_outside_def cell_alloc)

lemma unchanged_outside_refl: "unchanged_outside h h A"
  by (simp add: unchanged_outside_def)

lemma unchanged_outside_mono: "unchanged_outside h h' A \<Longrightarrow> A \<subseteq> B \<Longrightarrow> unchanged_outside h h' B"
  by (auto simp: unchanged_outside_def)

lemma LinkedList_ctor_ok:
  "LinkedList_ctor h = (\<lparr>mSize_L = 0, mTail = length h\<rparr>,
      h @ [Some \<lparr>mItem = default, mPrev = length h, mNext = length h\<rparr>])"
  by (simp add: LinkedList_ctor_def new_node_def alloc_def)

lemma ring_new_node:
  "ring (h @ [Some \<lparr>mItem = x, mPrev = length h, mNext = length h\<rparr>]) (length h) []"
  by (simp add: ring_def nxt_alloc prv_alloc cell_alloc)

lemma removeNode_ok:
  assumes c: "ring h (mTail l) (as1 @ a # as2)"
  shows "\<exists>h'. removeNode a l h = Some (l\<lparr>mSize_L := mSize_L l - 1\<rparr>, h') \<and>
           length h' = length h \<and> ring h' (mTail l) (as1 @ as2) \<and>
           items h' (as1 @ as2) = items h as1 @ items h as2 \<and>
           cell h' a = None \<and>
           unchanged_outside h h' (set (mTail l # as1 @ a # as2))"
proof -
  let ?t = "mTail l"
  let ?as = "as1 @ a # as2"
  from c have d: "distinct (?t # as1 @ [a] @ as2)" and l: "links h (?t # as1 @ [a] @ as2 @ [?t])"
    by (simp_all add: ring_def)
  let ?p = "last (?t # as1)" and ?q = "hd (as2 @ [?t])"
  have pin: "?p \<in> set (?t # as1)" by (rule last_in_set) simp
  have qin: "?q \<in> set (as2 @ [?t])" by (rule hd_in_set) simp
  have pa: "?p \<noteq> a" using d pin by auto
  have qa: "?q \<noteq> a" using d qin by auto
  from chain_neighbours [of ?t as1 a as2 h] d l
  have nb: "prv h a = Some ?p" "nxt h a = Some ?q" by simp_all
  have pal: "cell h ?p \<noteq> None"
    using links_allocated [OF l, of ?p] pin by auto
  have qal: "cell h ?q \<noteq> None"
    using links_allocated [OF l, of ?q] qin by auto
  from delete_node_effect [OF nb(2,1) pal qal]
  obtain h' where h': "delete_node h a = Some h'" "length h' = length h"
    "nxt h' = (nxt h)(?p \<mapsto> ?q, a := None)" "prv h' = (prv h)(?q \<mapsto> ?p, a := None)"
    "itm h' = (itm h)(a := None)" "\<forall>b. b \<noteq> a \<longrightarrow> (cell h' b = None) = (cell h b = None)"
    "cell h' a = None" "unchanged_outside h h' {a, ?p, ?q}"
    by blast
  have r: "removeNode a l h = Some (l\<lparr>mSize_L := mSize_L l - 1\<rparr>, h')"
    using h'(1) by (simp add: removeNode_def)
  have notin: "a \<notin> set (?t # as1 @ as2)" using d by auto
  have lk: "links h' (?t # as1 @ [] @ as2 @ [?t])"
  proof (rule chain_plug [OF d l])
    show "links h' (?p # [] @ [?q])"
      using pa qa qal h'(6) by (simp add: h'(3,4))
  next
    fix b assume "b \<in> set (?t # as1 @ as2)" "b \<noteq> ?p"
    then show "nxt h' b = nxt h b" using notin by (auto simp: h'(3))
  next
    fix b assume "b \<in> set (?t # as1 @ as2)" "b \<noteq> ?q"
    then show "prv h' b = prv h b" using notin by (auto simp: h'(4))
  next
    fix b assume "b \<in> set (?t # as1 @ as2)"
    then show "(cell h' b = None) = (cell h b = None)" using notin h'(6) by metis
  qed
  have ch: "ring h' ?t (as1 @ as2)"
    using d lk by (simp add: ring_def)
  have "items h' (as1 @ as2) = items h (as1 @ as2)"
    using notin by (intro items_cong) (auto simp: h'(5))
  then have it: "items h' (as1 @ as2) = items h as1 @ items h as2"
    by (simp add: items_append)
  have fr: "unchanged_outside h h' (set (?t # ?as))"
    using h'(8) pin qin by (auto simp: unchanged_outside_def)
  from r h'(2,7) ch it fr show ?thesis by simp
qed

declare dtor_loop.simps [simp del]

declare fill_gap.simps [simp del]

lemma dtor_loop_ok:
  assumes "LinkedList_chain h l as"
  shows "\<exists>h'. dtor_loop l h = Some (l\<lparr>mSize_L := 0\<rparr>, h') \<and> length h' = length h \<and>
           ring h' (mTail l) [] \<and> (\<forall>a\<in>set as. cell h' a = None) \<and>
           unchanged_outside h h' (set (mTail l # as))"
  using assms
proof (induction as arbitrary: l h)
  case Nil
  then have "mSize_L l = 0" by (simp add: LinkedList_chain_def unat_eq_0)
  then have "dtor_loop l h = Some (l\<lparr>mSize_L := 0\<rparr>, h)"
    by (subst dtor_loop.simps) (simp add: LinkedList_isEmpty_def)
  with Nil show ?case
    by (auto simp: LinkedList_chain_def unchanged_outside_refl)
next
  case (Cons a as)
  let ?t = "mTail l"
  from Cons.prems have r: "ring h ?t ([] @ a # as)" and n: "Suc (length as) = unat (mSize_L l)"
    by (simp_all add: LinkedList_chain_def)
  from n have nz: "mSize_L l \<noteq> 0" by auto
  from removeNode_ok [OF r]
  obtain h1 where h1: "removeNode a l h = Some (l\<lparr>mSize_L := mSize_L l - 1\<rparr>, h1)"
    "length h1 = length h" "ring h1 ?t as" "cell h1 a = None"
    "unchanged_outside h h1 (set (?t # a # as))"
    by auto
  let ?l1 = "l\<lparr>mSize_L := mSize_L l - 1\<rparr>"
  have c1: "LinkedList_chain h1 ?l1 as"
    using h1(3) n nz by (simp add: LinkedList_chain_def unat_minus_one)
  from Cons.IH [OF c1]
  obtain h' where h': "dtor_loop ?l1 h1 = Some (l\<lparr>mSize_L := 0\<rparr>, h')" "length h' = length h1"
    "ring h' ?t []" "\<forall>b\<in>set as. cell h' b = None" "unchanged_outside h1 h' (set (?t # as))"
    by auto
  have b: "LinkedList_begin l h = Some a"
    using ring_begin [of h l "a # as"] r by simp
  have res: "dtor_loop l h = Some (l\<lparr>mSize_L := 0\<rparr>, h')"
    using nz b h1(1) h'(1) by (subst dtor_loop.simps) (simp add: LinkedList_isEmpty_def)
  have al: "a < length h"
    using ring_allocated [of h ?t "a # as" a] r by (auto dest: cell_Some_less)
  have an: "a \<notin> set (?t # as)" using r by (auto simp: ring_def)
  then have "cell h' a = cell h1 a"
    using h'(5) al h1(2) by (simp add: unchanged_outside_def)
  then have ca: "cell h' a = None" using h1(4) by simp
  have fr: "unchanged_outside h h' (set (?t # a # as))"
    using h1(5) h'(5) by (rule unchanged_outside_trans) auto
  from res h'(2,3,4) h1(2) ca fr show ?case by simp
qed

lemma LinkedList_dtor_ok:
  assumes c: "LinkedList_chain h l as"
  shows "\<exists>h'. LinkedList_dtor l h = Some h' \<and> length h' = length h \<and>
           (\<forall>a\<in>set (mTail l # as). cell h' a = None) \<and>
           unchanged_outside h h' (set (mTail l # as))"
proof -
  let ?t = "mTail l"
  from dtor_loop_ok [OF c]
  obtain h1 where h1: "dtor_loop l h = Some (l\<lparr>mSize_L := 0\<rparr>, h1)" "length h1 = length h"
    "ring h1 ?t []" "\<forall>a\<in>set as. cell h1 a = None" "unchanged_outside h h1 (set (?t # as))"
    by auto
  from h1(3) have t: "nxt h1 ?t = Some ?t" "prv h1 ?t = Some ?t" "cell h1 ?t \<noteq> None"
    by (auto simp: ring_def)
  from delete_node_effect [OF t(1,2) t(3) t(3)]
  obtain h' where h': "delete_node h1 ?t = Some h'" "length h' = length h1"
    "\<forall>b. b \<noteq> ?t \<longrightarrow> (cell h' b = None) = (cell h1 b = None)"
    "cell h' ?t = None" "unchanged_outside h1 h' {?t, ?t, ?t}"
    by blast
  have r: "LinkedList_dtor l h = Some h'"
    using h1(1) h'(1) by (simp add: LinkedList_dtor_def)
  have fr: "unchanged_outside h h' (set (?t # as))"
    using h1(5) h'(5) by (rule unchanged_outside_trans) auto
  have "cell h' a = None" if "a \<in> set (?t # as)" for a
  proof (cases "a = ?t")
    case True
    with h'(4) show ?thesis by simp
  next
    case False
    with that h1(4) have "cell h1 a = None" by auto
    with False h'(3) show ?thesis by simp
  qed
  with r h'(2) h1(2) fr show ?thesis by simp
qed

lemma LinkedList_clear_ok:
  assumes c: "LinkedList_chain h l as"
  shows "\<exists>h'. LinkedList_clear l h = Some (\<lparr>mSize_L = 0, mTail = length h\<rparr>, h') \<and>
           length h' = Suc (length h) \<and>
           LinkedList_chain h' \<lparr>mSize_L = 0, mTail = length h\<rparr> [] \<and>
           cell h' (length h) = Some \<lparr>mItem = default, mPrev = length h, mNext = length h\<rparr> \<and>
           (\<forall>a\<in>set (mTail l # as). cell h' a = None) \<and>
           unchanged_outside h h' (set (mTail l # as))"
proof -
  let ?t = "mTail l" and ?n = "length h"
  let ?h1 = "h @ [Some \<lparr>mItem = default::'a, mPrev = ?n, mNext = ?n\<rparr>]"
  have fresh: "?n \<notin> set (?t # as)" using c by (rule chain_fresh)
  have c1: "LinkedList_chain ?h1 l as"
    using c unchanged_outside_alloc [of h _ "{}"] by (rule chain_frame) simp
  from LinkedList_dtor_ok [OF c1]
  obtain h' where h': "LinkedList_dtor l ?h1 = Some h'" "length h' = length ?h1"
    "\<forall>a\<in>set (?t # as). cell h' a = None" "unchanged_outside ?h1 h' (set (?t # as))"
    by auto
  have sw: "LinkedList_swap l \<lparr>mSize_L = 0, mTail = ?n\<rparr> = (\<lparr>mSize_L = 0, mTail = ?n\<rparr>, l)"
    by (simp add: LinkedList_swap_def)
  have r: "LinkedList_clear l h = Some (\<lparr>mSize_L = 0, mTail = ?n\<rparr>, h')"
    using h'(1) by (simp add: LinkedList_clear_def LinkedList_ctor_ok sw)
  have new: "cell h' ?n = cell ?h1 ?n"
    using h'(4) fresh by (simp add: unchanged_outside_def)
  have r0: "ring ?h1 ?n []" by (rule ring_new_node)
  have "ring h' ?n []"
    using r0 h'(4) by (rule ring_frame) (use fresh in auto)
  then have ch: "LinkedList_chain h' \<lparr>mSize_L = 0, mTail = ?n\<rparr> []"
    by (simp add: LinkedList_chain_def)
  have fr: "unchanged_outside h h' (set (?t # as))"
    using unchanged_outside_alloc [of h _ "{}"] h'(4) by (rule unchanged_outside_trans) auto
  from r h'(2,3) ch new fr show ?thesis
    by (simp add: cell_alloc)
qed

lemma fill_gap_ok:
  assumes "ring h (mTail temp) bs" and "i \<le> index" and "n = unat index - unat i"
  shows "\<exists>h' gs tsz. fill_gap i index temp h = Some (temp\<lparr>mSize_L := tsz\<rparr>, h') \<and>
           ring h' (mTail temp) (bs @ gs) \<and> length gs = n \<and>
           items h' (bs @ gs) = items h bs @ replicate n default \<and>
           (\<forall>g\<in>set gs. length h \<le> g) \<and> length h' = length h + n \<and>
           unchanged_outside h h' (set (mTail temp # bs))"
  using assms
proof (induction n arbitrary: i temp h bs)
  case 0
  then have "\<not> i < index" by (simp add: word_less_nat_alt word_le_nat_alt)
  then have "fill_gap i index temp h = Some (temp\<lparr>mSize_L := mSize_L temp\<rparr>, h)"
    by (subst fill_gap.simps) simp
  with 0 show ?case
    by (intro exI [of _ h] exI [of _ "[]"] exI [of _ "mSize_L temp"])
      (simp add: unchanged_outside_refl)
next
  case (Suc n)
  let ?t = "mTail temp" and ?a = "length h"
  from Suc.prems have lt: "unat i < unat index" by simp
  then have i: "i < index" by (simp add: word_less_nat_alt)
  have u: "unat (i + 1) = Suc (unat i)" using lt by (rule unat_Suc_less)
  from LinkedList_add_links [OF Suc.prems(1), of default]
  obtain h1 where h1: "LinkedList_add default temp h = Some (temp\<lparr>mSize_L := mSize_L temp + 1\<rparr>, h1)"
    "length h1 = Suc ?a" "ring h1 ?t (bs @ [?a])" "items h1 (bs @ [?a]) = items h bs @ [default]"
    "unchanged_outside h h1 (set (?t # bs))"
    by auto
  let ?temp1 = "temp\<lparr>mSize_L := mSize_L temp + 1\<rparr>"
  have r1: "ring h1 (mTail ?temp1) (bs @ [?a])" using h1(3) by simp
  have le: "i + 1 \<le> index" using lt u by (simp add: word_le_nat_alt)
  have n: "n = unat index - unat (i + 1)" using Suc.prems(3) u by simp
  from Suc.IH [OF r1 le n]
  obtain h' gs tsz where h': "fill_gap (i + 1) index ?temp1 h1 = Some (?temp1\<lparr>mSize_L := tsz\<rparr>, h')"
    "ring h' ?t ((bs @ [?a]) @ gs)" "length gs = n"
    "items h' ((bs @ [?a]) @ gs) = items h1 (bs @ [?a]) @ replicate n default"
    "\<forall>g\<in>set gs. length h1 \<le> g" "length h' = length h1 + n"
    "unchanged_outside h1 h' (set (?t # bs @ [?a]))"
    by auto
  have res: "fill_gap i index temp h = Some (temp\<lparr>mSize_L := tsz\<rparr>, h')"
    using i h1(1) h'(1) by (subst fill_gap.simps) simp
  have fr: "unchanged_outside h h' (set (?t # bs))"
    using h1(5) h'(7) by (rule unchanged_outside_trans) auto
  have it: "items h' (bs @ ?a # gs) = items h bs @ replicate (Suc n) default"
    using h'(4) h1(4) by (simp add: replicate_append_same)
  show ?case
    using res h'(2,3,5,6) h1(2) it fr
    by (intro exI [of _ h'] exI [of _ "?a # gs"] exI [of _ tsz]) auto
qed

lemma snoc_ex: "bs \<noteq> [] \<Longrightarrow> \<exists>cs c. bs = cs @ [c]"
  by (cases bs rule: rev_cases) auto

lemma links_inner:
  assumes "links h (x # bs @ [y])"
  shows "links h bs"
proof (cases bs)
  case Nil
  then show ?thesis by simp
next
  case (Cons b bs')
  from Cons have "bs \<noteq> []" by simp
  then obtain cs c where s: "bs = cs @ [c]"
    using snoc_ex by blast
  from assms have "links h (bs @ [y])"
    using Cons by simp
  then have "links h (cs @ [c, y])" unfolding s by simp
  then show ?thesis
    unfolding s using links_append [of h cs c "[y]"] by simp
qed

lemma links_relink:
  assumes l: "links h (x # bs @ [y])" and ne: "bs \<noteq> []"
    and n: "\<And>b. b \<in> set (butlast bs) \<Longrightarrow> nxt h' b = nxt h b"
    and p: "\<And>b. b \<in> set (tl bs) \<Longrightarrow> prv h' b = prv h b"
    and al: "\<And>b. b \<in> set bs \<Longrightarrow> (cell h' b = None) = (cell h b = None)"
    and e1: "nxt h' u = Some (hd bs)" "prv h' (hd bs) = Some u"
    and e2: "nxt h' (last bs) = Some w" "prv h' w = Some (last bs)"
  shows "links h' (u # bs @ [w])"
proof -
  have "links h' bs = links h bs"
    using n p al by (rule links_cong)
  then have lb: "links h' bs" using links_inner [OF l] by simp
  obtain b bs' where s1: "bs = b # bs'" using ne by (cases bs) auto
  obtain cs c where s2: "bs = cs @ [c]" using ne snoc_ex by blast
  have c: "c = last bs" unfolding s2 by simp
  have "links h' (cs @ [c])" using lb s2 by simp
  moreover have "links h' [c, w]" using e2 c by (auto simp: prv_def)
  ultimately have "links h' (cs @ c # [w])"
    using links_append [of h' cs c "[w]"] by simp
  then have "links h' (bs @ [w])" unfolding s2 by simp
  then show ?thesis
    using e1 unfolding s1 by simp
qed

lemma link_frame:
  assumes "cell h p \<noteq> None" and "cell h q \<noteq> None"
  shows "\<exists>h'. link h p q = Some h' \<and> length h' = length h \<and>
           nxt h' = (nxt h)(p \<mapsto> q) \<and> prv h' = (prv h)(q \<mapsto> p) \<and> itm h' = itm h \<and>
           (\<forall>a. (cell h' a = None) = (cell h a = None)) \<and> unchanged_outside h h' {p, q}"
  using link_effect [OF assms] by (auto simp: unchanged_outside_def)

lemma LinkedList_add_at_extend:
  assumes c: "LinkedList_chain h l as" and ge: "mSize_L l \<le> index"
  shows "\<exists>h' ns. LinkedList_add_at index v l h = Some (l\<lparr>mSize_L := index + 1\<rparr>, h') \<and>
           ring h' (mTail l) (as @ ns) \<and>
           length ns = unat index - unat (mSize_L l) + 1 \<and>
           items h' (as @ ns) = items h as @ replicate (unat index - unat (mSize_L l)) default @ [v] \<and>
           (\<forall>n\<in>set ns. length h \<le> n) \<and>
           unchanged_outside h h' (set (mTail l # as))"
proof -
  let ?t = "mTail l" and ?tt = "length h"
  let ?k = "unat index - unat (mSize_L l)"
  let ?h1 = "h @ [Some \<lparr>mItem = default::'a, mPrev = ?tt, mNext = ?tt\<rparr>]"
  let ?temp = "\<lparr>mSize_L = 0, mTail = ?tt\<rparr>"
  from c have r: "ring h ?t as" by (rule chain_ring)
  have old: "\<And>a. a \<in> set (?t # as) \<Longrightarrow> a < length h"
    using ring_allocated [OF r] by (auto dest: cell_Some_less)
  have f01: "unchanged_outside h ?h1 {}" by (rule unchanged_outside_alloc)
  have r1: "ring ?h1 (mTail ?temp) []" using ring_new_node [of h] by simp
  from fill_gap_ok [OF r1 ge refl]
  obtain h2 gs tsz where h2: "fill_gap (mSize_L l) index ?temp ?h1 = Some (?temp\<lparr>mSize_L := tsz\<rparr>, h2)"
    "ring h2 ?tt gs" "length gs = ?k" "items h2 gs = replicate ?k default"
    "\<forall>g\<in>set gs. length ?h1 \<le> g" "length h2 = length ?h1 + ?k"
    "unchanged_outside ?h1 h2 {?tt}"
    by auto
  let ?temp1 = "?temp\<lparr>mSize_L := tsz\<rparr>"
  have r2: "ring h2 (mTail ?temp1) gs" using h2(2) by simp
  let ?a = "length h2"
  from LinkedList_add_links [OF r2, of v]
  obtain h3 where h3: "LinkedList_add v ?temp1 h2 = Some (?temp1\<lparr>mSize_L := mSize_L ?temp1 + 1\<rparr>, h3)"
    "length h3 = Suc ?a" "ring h3 ?tt (gs @ [?a])" "items h3 (gs @ [?a]) = items h2 gs @ [v]"
    "unchanged_outside h2 h3 (set (?tt # gs))"
    by auto
  let ?temp2 = "?temp1\<lparr>mSize_L := mSize_L ?temp1 + 1\<rparr>"
  let ?bs = "gs @ [?a]"
  have new: "\<forall>n\<in>set ?bs. length h < n"
    using h2(5,6) by auto
  have f03: "unchanged_outside h h3 {}"
  proof -
    have "unchanged_outside h h2 {}"
      using f01 h2(7) by (rule unchanged_outside_trans) auto
    then show ?thesis
      using h3(5) by (rule unchanged_outside_trans) (use h2(5) in auto)
  qed
  have r3: "ring h3 ?t as"
    using r f03 by (rule ring_frame) simp
  have i3: "items h3 as = items h as"
    using r f03 by (rule ring_frame) simp
  let ?p = "last (?t # as)" and ?f = "hd ?bs"
  have hd_eq: "hd (?bs @ [?tt]) = ?f" by (cases gs) simp_all
  have tt3: "prv h3 ?tt = Some ?a" "nxt h3 ?tt = Some ?f"
    using ring_prv_tail [OF h3(3)] ring_nxt_tail [OF h3(3)] hd_eq by simp_all
  have t3: "prv h3 ?t = Some ?p"
    using ring_prv_tail [OF r3] by simp
  from t3 tt3 obtain tn ttn where cells: "cell h3 ?t = Some tn" "mPrev tn = ?p"
    "cell h3 ?tt = Some ttn" "mPrev ttn = ?a" "mNext ttn = ?f"
    by (auto simp: prv_Some_iff nxt_Some_iff)
  have pin: "?p \<in> set (?t # as)" by (rule last_in_set) simp
  have fin: "?f \<in> set ?bs" by (rule hd_in_set) simp
  have al3: "cell h3 ?p \<noteq> None" "cell h3 ?f \<noteq> None" "cell h3 ?a \<noteq> None"
    "cell h3 ?t \<noteq> None" "cell h3 ?tt \<noteq> None"
    using ring_allocated [OF r3, of ?p] ring_allocated [OF h3(3), of ?f]
      ring_allocated [OF h3(3), of ?a] cells pin fin by auto
  from link_frame [OF al3(1,2)]
  obtain h4 where h4: "link h3 ?p ?f = Some h4" "length h4 = length h3"
    "nxt h4 = (nxt h3)(?p \<mapsto> ?f)" "prv h4 = (prv h3)(?f \<mapsto> ?p)" "itm h4 = itm h3"
    "\<forall>a. (cell h4 a = None) = (cell h3 a = None)" "unchanged_outside h3 h4 {?p, ?f}"
    by blast
  have al4: "cell h4 ?a \<noteq> None" "cell h4 ?t \<noteq> None" "cell h4 ?tt \<noteq> None"
    using h4(6) al3 by simp_all
  from link_frame [OF al4(1,2)]
  obtain h5 where h5: "link h4 ?a ?t = Some h5" "length h5 = length h4"
    "nxt h5 = (nxt h4)(?a \<mapsto> ?t)" "prv h5 = (prv h4)(?t \<mapsto> ?a)" "itm h5 = itm h4"
    "\<forall>a. (cell h5 a = None) = (cell h4 a = None)" "unchanged_outside h4 h5 {?a, ?t}"
    by blast
  have al5: "cell h5 ?tt \<noteq> None"
    using h5(6) al4 by simp
  from link_frame [OF al5 al5]
  obtain h6 where h6: "link h5 ?tt ?tt = Some h6" "length h6 = length h5"
    "nxt h6 = (nxt h5)(?tt \<mapsto> ?tt)" "prv h6 = (prv h5)(?tt \<mapsto> ?tt)" "itm h6 = itm h5"
    "\<forall>a. (cell h6 a = None) = (cell h5 a = None)" "unchanged_outside h5 h6 {?tt, ?tt}"
    by blast
  have nx: "nxt h6 = (nxt h3)(?p \<mapsto> ?f, ?a \<mapsto> ?t, ?tt \<mapsto> ?tt)"
    by (simp add: h6(3) h5(3) h4(3))
  have px: "prv h6 = (prv h3)(?f \<mapsto> ?p, ?t \<mapsto> ?a, ?tt \<mapsto> ?tt)"
    by (simp add: h6(4) h5(4) h4(4))
  have ix: "itm h6 = itm h3"
    by (simp add: h6(5) h5(5) h4(5))
  have alx: "\<forall>a. (cell h6 a = None) = (cell h3 a = None)"
    by (simp add: h6(6) h5(6) h4(6))
  have d3: "distinct (?tt # ?bs)" using h3(3) by (simp add: ring_def)
  have tt_old: "?tt \<notin> set (?t # as)" using old by auto
  have bs_old: "set ?bs \<inter> set (?t # as) = {}"
    using new old by fastforce
  have r6t: "ring h6 ?tt []"
    using alx al3(5) by (simp add: ring_def nx px)
  have c6t: "LinkedList_chain h6 (?temp2\<lparr>mSize_L := 0\<rparr>) []"
    using r6t by (simp add: LinkedList_chain_def)
  from LinkedList_dtor_ok [OF c6t]
  obtain h7 where h7: "LinkedList_dtor (?temp2\<lparr>mSize_L := 0\<rparr>) h6 = Some h7" "length h7 = length h6"
    "cell h7 ?tt = None" "unchanged_outside h6 h7 {?tt}"
    by auto
  have res: "LinkedList_add_at index v l h = Some (l\<lparr>mSize_L := index + 1\<rparr>, h7)"
    using ge h2(1) h3(1) cells h4(1) h5(1) h6(1) h7(1)
    by (simp add: LinkedList_add_at_def LinkedList_ctor_ok LinkedList_size_def
        word_less_nat_alt word_le_nat_alt Let_def)
  have d: "distinct (?t # as @ [] @ [])" and l3: "links h3 (?t # as @ [] @ [] @ [?t])"
    using r3 by (simp_all add: ring_def)
  have mid: "links h6 (?p # ?bs @ [?t])"
  proof (rule links_relink [where h = h3 and x = ?tt and y = ?tt])
    show "links h3 (?tt # ?bs @ [?tt])" using h3(3) by (simp add: ring_def)
    show "?bs \<noteq> []" by simp
  next
    fix b assume b: "b \<in> set (butlast ?bs)"
    then have "b \<in> set gs" by (simp add: butlast_append)
    then have "b \<noteq> ?a" "b \<noteq> ?tt" "b \<noteq> ?p"
      using d3 bs_old pin by auto
    then show "nxt h6 b = nxt h3 b" by (simp add: nx)
  next
    fix b assume b: "b \<in> set (tl ?bs)"
    then have "b \<in> set ?bs" by (rule in_set_tlD)
    moreover have "b \<noteq> ?f" using b d3 by (cases gs) auto
    ultimately have "b \<noteq> ?f" "b \<noteq> ?tt" "b \<noteq> ?t"
      using d3 bs_old by auto
    then show "prv h6 b = prv h3 b" by (simp add: px)
  next
    fix b assume "b \<in> set ?bs"
    show "(cell h6 b = None) = (cell h3 b = None)" using alx by simp
  next
    have "?p \<noteq> ?a" "?p \<noteq> ?tt" using pin bs_old tt_old by auto
    then show "nxt h6 ?p = Some (hd ?bs)" by (simp add: nx)
    have "?f \<noteq> ?t" "?f \<noteq> ?tt" using fin bs_old d3 by auto
    then show "prv h6 (hd ?bs) = Some ?p" by (simp add: px)
    have "?a \<noteq> ?tt" using d3 by auto
    then show "nxt h6 (last ?bs) = Some ?t" by (simp add: nx)
    have "?t \<noteq> ?tt" using tt_old by auto
    then show "prv h6 ?t = Some (last ?bs)" by (simp add: px)
  qed
  have lk6: "links h6 (?t # as @ ?bs @ [] @ [?t])"
  proof (rule chain_plug [OF d l3])
    show "links h6 (?p # ?bs @ [hd ([] @ [?t])])" using mid by simp
  next
    fix b assume b: "b \<in> set (?t # as @ [])" "b \<noteq> ?p"
    then have "b \<noteq> ?a" "b \<noteq> ?tt" using bs_old tt_old by auto
    with b show "nxt h6 b = nxt h3 b" by (simp add: nx)
  next
    fix b assume b: "b \<in> set (?t # as @ [])" "b \<noteq> hd ([] @ [?t])"
    then have "b \<noteq> ?f" "b \<noteq> ?tt" "b \<noteq> ?t" using bs_old tt_old fin by auto
    then show "prv h6 b = prv h3 b" by (simp add: px)
  next
    fix b assume "b \<in> set (?t # as @ [])"
    show "(cell h6 b = None) = (cell h3 b = None)" using alx by simp
  qed
  have dist: "distinct (?t # as @ ?bs)"
    using r3 d3 bs_old by (auto simp: ring_def)
  have r6: "ring h6 ?t (as @ ?bs)"
    using lk6 dist by (simp add: ring_def)
  have tt_new: "?tt \<notin> set (?t # as @ ?bs)"
    using tt_old d3 by auto
  have r7: "ring h7 ?t (as @ ?bs)"
    using r6 h7(4) by (rule ring_frame) (use tt_new in auto)
  have i7: "items h7 (as @ ?bs) = items h6 (as @ ?bs)"
    using r6 h7(4) by (rule ring_frame) (use tt_new in auto)
  have "items h6 (as @ ?bs) = items h3 (as @ ?bs)"
    by (rule items_cong) (simp add: ix)
  also have "\<dots> = items h as @ replicate ?k default @ [v]"
    by (simp add: items_append [of h3 as] i3 h3(4) h2(4) del: items_append)
  finally have it: "items h7 (as @ ?bs) = items h as @ replicate ?k default @ [v]"
    using i7 by simp
  have fr: "unchanged_outside h h7 (set (?t # as))"
  proof -
    have 4: "unchanged_outside h h4 (set (?t # as))"
      using f03 h4(7) by (rule unchanged_outside_trans) (use pin new fin in auto)
    have 5: "unchanged_outside h h5 (set (?t # as))"
      using 4 h5(7) by (rule unchanged_outside_trans) (use h2(6) in auto)
    have 6: "unchanged_outside h h6 (set (?t # as))"
      using 5 h6(7) by (rule unchanged_outside_trans) auto
    show ?thesis
      using 6 h7(4) by (rule unchanged_outside_trans) auto
  qed
  have len: "length ?bs = ?k + 1" using h2(3) by simp
  have newer: "\<forall>n\<in>set ?bs. length h \<le> n" using new by auto
  from res r7 len it newer fr show ?thesis
    by (intro exI [of _ h7] exI [of _ ?bs]) simp
qed

lemma copy_loop_ok:
  assumes src: "ring h s (pre @ rest)"
    and tmp: "ring h (mTail temp) bs"
    and dis: "set (s # pre @ rest) \<inter> set (mTail temp # bs) = {}"
    and sz: "unat (mSize_L temp) + length rest < 2 ^ 64"
  shows "\<exists>h' cs. copy_loop (hd (rest @ [s])) s temp h =
             Some (Some (temp\<lparr>mSize_L := mSize_L temp + of_nat (length rest)\<rparr>, h')) \<and>
           ring h' (mTail temp) (bs @ cs) \<and> length cs = length rest \<and>
           items h' (bs @ cs) = items h bs @ items h rest \<and>
           (\<forall>c\<in>set cs. length h \<le> c) \<and> length h' = length h + length rest \<and>
           unchanged_outside h h' (set (mTail temp # bs))"
  using assms
proof (induction rest arbitrary: pre temp h bs)
  case Nil
  have "copy_loop s s temp h = Some (Some (temp, h))"
    by (subst copy_loop.simps) simp
  with Nil show ?case
    by (intro exI [of _ h] exI [of _ "[]"]) (simp add: unchanged_outside_refl)
next
  case (Cons a rest)
  let ?t = "mTail temp" and ?n = "length h"
  from Cons.prems(1) have d: "distinct (s # pre @ a # rest)"
    and l: "links h (s # pre @ a # rest @ [s])"
    by (simp_all add: ring_def)
  from d have as: "a \<noteq> s" by auto
  from chain_neighbours [OF d l] have nb: "nxt h a = Some (hd (rest @ [s]))"
    by simp
  then obtain nd where nd: "cell h a = Some nd" "mNext nd = hd (rest @ [s])"
    by (auto simp: nxt_Some_iff)
  from LinkedList_add_links [OF Cons.prems(2), of "mItem nd"]
  obtain h1 where h1: "LinkedList_add (mItem nd) temp h = Some (temp\<lparr>mSize_L := mSize_L temp + 1\<rparr>, h1)"
    "length h1 = Suc ?n" "ring h1 ?t (bs @ [?n])" "items h1 (bs @ [?n]) = items h bs @ [mItem nd]"
    "unchanged_outside h h1 (set (?t # bs))"
    by auto
  let ?temp1 = "temp\<lparr>mSize_L := mSize_L temp + 1\<rparr>"
  have dis': "set (?t # bs) \<inter> set (s # pre @ a # rest) = {}"
    using Cons.prems(3) by auto
  have "ring h1 s (pre @ a # rest)"
    using Cons.prems(1) h1(5) dis' by (rule ring_frame)
  then have src1: "ring h1 s ((pre @ [a]) @ rest)" by simp
  have it1: "items h1 (pre @ a # rest) = items h (pre @ a # rest)"
    using Cons.prems(1) h1(5) dis' by (rule ring_frame)
  have ain: "a \<in> set (s # pre @ a # rest)" by simp
  then have a_lt: "a < length h"
    using ring_allocated [OF Cons.prems(1), of a] by (auto dest: cell_Some_less)
  have a_notin: "a \<notin> set (?t # bs)" using Cons.prems(3) by auto
  have ca: "cell h1 a = cell h a"
    using h1(5) a_lt a_notin by (simp add: unchanged_outside_def)
  have old: "\<And>x. x \<in> set (s # pre @ a # rest) \<Longrightarrow> x < length h"
    using ring_allocated [OF Cons.prems(1)] by (auto dest: cell_Some_less)
  have tmp1: "ring h1 (mTail ?temp1) (bs @ [?n])" using h1(3) by simp
  have dis1: "set (s # (pre @ [a]) @ rest) \<inter> set (mTail ?temp1 # bs @ [?n]) = {}"
    using Cons.prems(3) old by fastforce
  have u: "unat (mSize_L temp + 1) = Suc (unat (mSize_L temp))"
    using Cons.prems(4) by (simp add: unat_word_ariths)
  have sz1: "unat (mSize_L ?temp1) + length rest < 2 ^ 64"
    using Cons.prems(4) u by simp
  from Cons.IH [OF src1 tmp1 dis1 sz1]
  obtain h' cs where h': "copy_loop (hd (rest @ [s])) s ?temp1 h1 =
      Some (Some (?temp1\<lparr>mSize_L := mSize_L ?temp1 + of_nat (length rest)\<rparr>, h'))"
    "ring h' ?t ((bs @ [?n]) @ cs)" "length cs = length rest"
    "items h' ((bs @ [?n]) @ cs) = items h1 (bs @ [?n]) @ items h1 rest"
    "\<forall>c\<in>set cs. length h1 \<le> c" "length h' = length h1 + length rest"
    "unchanged_outside h1 h' (set (?t # bs @ [?n]))"
    by auto
  have res: "copy_loop (hd ((a # rest) @ [s])) s temp h =
      Some (Some (temp\<lparr>mSize_L := mSize_L temp + of_nat (length (a # rest))\<rparr>, h'))"
    using as nd h1(1) ca h'(1)
    by (subst copy_loop.simps) (simp add: add.assoc add.commute)
  have cells1: "cell h1 x = cell h x" if "x \<in> set rest" for x
  proof -
    from that have "x < length h" "x \<notin> set (?t # bs)"
      using old [of x] Cons.prems(3) by auto
    then show ?thesis using h1(5) by (simp add: unchanged_outside_def)
  qed
  have r1: "items h1 rest = items h rest"
    by (rule items_cong) (simp add: itm_def cells1)
  have it: "items h' (bs @ ?n # cs) = items h bs @ items h (a # rest)"
    using h'(4) h1(4) r1 nd(1) by (simp add: itm_def)
  have fr: "unchanged_outside h h' (set (?t # bs))"
    using h1(5) h'(7) by (rule unchanged_outside_trans) auto
  show ?case
    using res h'(2,3,5,6) h1(2) it fr
    by (intro exI [of _ h'] exI [of _ "?n # cs"]) auto
qed

lemma LinkedList_copy_ctor_ok:
  assumes c: "LinkedList_chain h src ss"
  shows "\<exists>h' cs. LinkedList_copy_ctor src h =
             Some (Some (\<lparr>mSize_L = mSize_L src, mTail = Suc (length h)\<rparr>, h')) \<and>
           LinkedList_chain h' \<lparr>mSize_L = mSize_L src, mTail = Suc (length h)\<rparr> cs \<and>
           items h' cs = items h ss \<and> (\<forall>c\<in>set cs. length h \<le> c) \<and>
           unchanged_outside h h' {}"
proof -
  let ?s = "mTail src" and ?t0 = "length h" and ?tt = "Suc (length h)"
  let ?h1 = "h @ [Some \<lparr>mItem = default::'a, mPrev = ?t0, mNext = ?t0\<rparr>]"
  let ?h2 = "h @ [Some \<lparr>mItem = default::'a, mPrev = ?t0, mNext = ?t0\<rparr>,
                  Some \<lparr>mItem = default::'a, mPrev = ?tt, mNext = ?tt\<rparr>]"
  have h12: "?h1 @ [Some \<lparr>mItem = default::'a, mPrev = ?tt, mNext = ?tt\<rparr>] = ?h2"
    by simp
  let ?temp = "\<lparr>mSize_L = 0, mTail = ?tt\<rparr>"
  from c have r: "ring h ?s ss" and n: "length ss = unat (mSize_L src)"
    by (simp_all add: LinkedList_chain_def)
  have old: "\<And>a. a \<in> set (?s # ss) \<Longrightarrow> a < length h"
    using ring_allocated [OF r] by (auto dest: cell_Some_less)
  have f12: "unchanged_outside ?h1 ?h2 {}"
    using unchanged_outside_alloc [of ?h1 _ "{}"] by simp
  have f02: "unchanged_outside h ?h2 {}"
    using unchanged_outside_alloc [of h _ "{}"] f12 by (rule unchanged_outside_trans) auto
  have r2: "ring ?h2 ?s ([] @ ss)"
    using ring_frame(1) [OF r f02] by simp
  have i2: "items ?h2 ss = items h ss"
    using ring_frame(2) [OF r f02] by simp
  have t2: "ring ?h2 (mTail ?temp) []"
    using ring_new_node [of ?h1] by simp
  have dis: "set (?s # [] @ ss) \<inter> set (mTail ?temp # []) = {}"
    using old by fastforce
  have sz: "unat (mSize_L ?temp) + length ss < 2 ^ 64"
    using n unat_size_t_less [of "mSize_L src"] by simp
  from copy_loop_ok [OF r2 t2 dis sz]
  obtain h3 cs where h3: "copy_loop (hd (ss @ [?s])) ?s ?temp ?h2 =
      Some (Some (?temp\<lparr>mSize_L := mSize_L ?temp + of_nat (length ss)\<rparr>, h3))"
    "ring h3 ?tt cs" "length cs = length ss" "items h3 cs = items ?h2 ss"
    "\<forall>c\<in>set cs. length ?h2 \<le> c" "length h3 = length ?h2 + length ss"
    "unchanged_outside ?h2 h3 {?tt}"
    by auto
  have sz_eq: "(of_nat (length ss) :: size_t) = mSize_L src"
    using n by simp
  have b: "LinkedList_begin src ?h2 = Some (hd (ss @ [?s]))"
    using ring_begin [of ?h2 src ss] r2 by simp
  have r0: "ring ?h2 ?t0 []"
    using ring_new_node [of h] f12 by (rule ring_frame) simp
  have r03: "ring h3 ?t0 []"
    using r0 h3(7) by (rule ring_frame) simp
  then have c03: "LinkedList_chain h3 \<lparr>mSize_L = 0, mTail = ?t0\<rparr> []"
    by (simp add: LinkedList_chain_def)
  from LinkedList_dtor_ok [OF c03]
  obtain h4 where h4: "LinkedList_dtor \<lparr>mSize_L = 0, mTail = ?t0\<rparr> h3 = Some h4"
    "length h4 = length h3" "unchanged_outside h3 h4 {?t0}"
    by auto
  have res: "LinkedList_copy_ctor src h =
      Some (Some (\<lparr>mSize_L = mSize_L src, mTail = ?tt\<rparr>, h4))"
    using b h3(1) h4(1) sz_eq
    by (simp add: LinkedList_copy_ctor_def LinkedList_ctor_ok LinkedList_swap_def)
  have t0_new: "?t0 \<notin> set (?tt # cs)"
    using h3(5) by auto
  have r4: "ring h4 ?tt cs"
    using h3(2) h4(3) by (rule ring_frame) (use t0_new in auto)
  have i4: "items h4 cs = items h3 cs"
    using h3(2) h4(3) by (rule ring_frame) (use t0_new in auto)
  have ch: "LinkedList_chain h4 \<lparr>mSize_L = mSize_L src, mTail = ?tt\<rparr> cs"
    using r4 h3(3) n by (simp add: LinkedList_chain_def)
  have fr: "unchanged_outside h h4 {}"
  proof -
    have "unchanged_outside h h3 {}"
      using f02 h3(7) by (rule unchanged_outside_trans) auto
    then show ?thesis
      using h4(3) by (rule unchanged_outside_trans) auto
  qed
  have newer: "\<forall>c\<in>set cs. length h \<le> c" using h3(5) by auto
  from res ch i4 h3(4) i2 newer fr show ?thesis
    by (intro exI [of _ h4] exI [of _ cs]) simp
qed

lemma items_Cons_cell: "cell h a = Some n \<Longrightarrow> items h (a # as) = mItem n # items h as"
  by (simp add: itm_def)

lemma equal_loop_ok:
  assumes "ring h s1 (pre1 @ r1)" and "ring h s2 (pre2 @ r2)" and "length r1 = length r2"
  shows "equal_loop (hd (r1 @ [s1])) s1 (hd (r2 @ [s2])) h = Some (Some (items h r1 = items h r2))"
  using assms
proof (induction r1 arbitrary: r2 pre1 pre2)
  case Nil
  then show ?case by (subst equal_loop.simps) simp
next
  case (Cons a r1)
  from Cons.prems(3) obtain b r2' where r2: "r2 = b # r2'" by (cases r2) auto
  from Cons.prems(1) have d1: "distinct (s1 # pre1 @ a # r1)" and l1: "links h (s1 # pre1 @ a # r1 @ [s1])"
    by (simp_all add: ring_def)
  from Cons.prems(2) have d2: "distinct (s2 # pre2 @ b # r2')" and l2: "links h (s2 # pre2 @ b # r2' @ [s2])"
    by (simp_all add: ring_def r2)
  from d1 have as: "a \<noteq> s1" by auto
  from chain_neighbours(2) [OF d1 l1] obtain n1 where n1: "cell h a = Some n1" "mNext n1 = hd (r1 @ [s1])"
    by (auto simp: nxt_Some_iff)
  from chain_neighbours(2) [OF d2 l2] obtain n2 where n2: "cell h b = Some n2" "mNext n2 = hd (r2' @ [s2])"
    by (auto simp: nxt_Some_iff)
  have p1: "ring h s1 ((pre1 @ [a]) @ r1)" using Cons.prems(1) by simp
  have p2: "ring h s2 ((pre2 @ [b]) @ r2')" using Cons.prems(2) r2 by simp
  have len: "length r1 = length r2'" using Cons.prems(3) r2 by simp
  note IH = Cons.IH [OF p1 p2 len]
  have it: "(items h (a # r1) = items h (b # r2')) \<longleftrightarrow> (mItem n1 = mItem n2 \<and> items h r1 = items h r2')"
    by (simp add: items_Cons_cell [OF n1(1)] items_Cons_cell [OF n2(1)] del: items_Cons_itm)
  show ?case
    unfolding r2 it using as n1 n2 IH
    by (subst equal_loop.simps) simp
qed

lemma LinkedList_eq_ok:
  assumes c1: "LinkedList_chain h l as" and c2: "LinkedList_chain h r bs"
  shows "LinkedList_eq l r h = Some (Some (items h as = items h bs))"
proof (cases "mSize_L l = mSize_L r")
  case True
  with c1 c2 have len: "length as = length bs" by (simp add: LinkedList_chain_def)
  have "equal_loop (hd (as @ [mTail l])) (mTail l) (hd (bs @ [mTail r])) h =
      Some (Some (items h as = items h bs))"
    using c1 c2 len by (intro equal_loop_ok [of h _ "[]" _ _ "[]"]) (simp_all add: LinkedList_chain_def)
  then show ?thesis
    using True chain_begin [OF c1] chain_begin [OF c2] by (simp add: LinkedList_eq_def)
next
  case False
  then have "unat (mSize_L l) \<noteq> unat (mSize_L r)" by (simp add: word_unat_eq_iff)
  with c1 c2 have "length (items h as) \<noteq> length (items h bs)"
    by (simp add: chain_items_length) (simp add: LinkedList_chain_def)
  then have "items h as \<noteq> items h bs" by auto
  with False show ?thesis by (simp add: LinkedList_eq_def)
qed

lemma LinkedList_assign_self: "LinkedList_assign (a, l) (a, r) h = Some (Some (l, h))"
  by (simp add: LinkedList_assign_def)

lemma LinkedList_assign_ok:
  assumes cl: "LinkedList_chain h l as" and cr: "LinkedList_chain h r bs" and ne: "ta \<noteq> ra"
  shows "\<exists>h' cs. LinkedList_assign (ta, l) (ra, r) h =
             Some (Some (\<lparr>mSize_L = mSize_L r, mTail = Suc (length h)\<rparr>, h')) \<and>
           LinkedList_chain h' \<lparr>mSize_L = mSize_L r, mTail = Suc (length h)\<rparr> cs \<and>
           items h' cs = items h bs \<and> (\<forall>c\<in>set cs. length h \<le> c) \<and>
           (\<forall>a\<in>set (mTail l # as). cell h' a = None) \<and>
           unchanged_outside h h' (set (mTail l # as))"
proof -
  let ?l' = "\<lparr>mSize_L = mSize_L r, mTail = Suc (length h)\<rparr>"
  from LinkedList_copy_ctor_ok [OF cr]
  obtain h1 cs where h1: "LinkedList_copy_ctor r h = Some (Some (?l', h1))"
    "LinkedList_chain h1 ?l' cs" "items h1 cs = items h bs" "\<forall>c\<in>set cs. length h \<le> c"
    "unchanged_outside h h1 {}"
    by blast
  have old: "\<And>a. a \<in> set (mTail l # as) \<Longrightarrow> a < length h"
    using ring_allocated [OF chain_ring [OF cl]] by (auto dest: cell_Some_less)
  have cl1: "LinkedList_chain h1 l as"
    using cl h1(5) by (rule chain_frame) simp
  from LinkedList_dtor_ok [OF cl1]
  obtain h2 where h2: "LinkedList_dtor l h1 = Some h2" "length h2 = length h1"
    "\<forall>a\<in>set (mTail l # as). cell h2 a = None" "unchanged_outside h1 h2 (set (mTail l # as))"
    by auto
  have sw: "LinkedList_swap l ?l' = (?l', l)"
    by (simp add: LinkedList_swap_def)
  have res: "LinkedList_assign (ta, l) (ra, r) h = Some (Some (?l', h2))"
    using ne h1(1) h2(1) by (simp add: LinkedList_assign_def sw)
  have disj: "set (mTail l # as) \<inter> set (mTail ?l' # cs) = {}"
    using old h1(4) by fastforce
  have c2: "LinkedList_chain h2 ?l' cs"
    using h1(2) h2(4) disj by (rule chain_frame)
  have i2: "items h2 cs = items h1 cs"
    using h1(2) h2(4) disj by (rule chain_frame)
  have fr: "unchanged_outside h h2 (set (mTail l # as))"
    using h1(5) h2(4) by (rule unchanged_outside_trans) auto
  from res c2 i2 h1(3,4) h2(3) fr show ?thesis
    by (intro exI [of _ h2] exI [of _ cs]) simp
qed

text \<open>
  The nodes of a list, read off the heap: \<open>mSize\<close> steps along \<open>mNext\<close> from
  \<open>begin()\<close>. A list is well formed when these nodes and the dummy node are distinct and
  linked in a ring; its elements are the items of these nodes.
\<close>

primrec walk :: "'a nheap \<Rightarrow> addr \<Rightarrow> nat \<Rightarrow> addr list" where
  "walk h p 0 = []"
| "walk h p (Suc n) = p # (case cell h p of None \<Rightarrow> [] | Some nd \<Rightarrow> walk h (mNext nd) n)"

definition LinkedList_nodes :: "'a nheap \<Rightarrow> LinkedList \<Rightarrow> addr list" where
  "LinkedList_nodes h l =
     (case LinkedList_begin l h of None \<Rightarrow> [] | Some b \<Rightarrow> walk h b (unat (mSize_L l)))"

definition LinkedList_wf :: "'a nheap \<Rightarrow> LinkedList \<Rightarrow> bool" where
  "LinkedList_wf h l = LinkedList_chain h l (LinkedList_nodes h l)"

definition LinkedList_elems :: "'a nheap \<Rightarrow> LinkedList \<Rightarrow> 'a list" where
  "LinkedList_elems h l = items h (LinkedList_nodes h l)"

lemma walk_links: "links h (c # cs) \<Longrightarrow> n \<le> length cs \<Longrightarrow> walk h c n = take n (c # cs)"
proof (induction n arbitrary: c cs)
  case 0
  show ?case by simp
next
  case (Suc n)
  then obtain d ds where cs: "cs = d # ds" by (cases cs) auto
  with Suc.prems have "nxt h c = Some d" "links h (d # ds)" "n \<le> length ds"
    by auto
  with Suc.IH [of d ds] cs show ?case
    by (auto simp: nxt_Some_iff)
qed

lemma chain_nodes:
  assumes c: "LinkedList_chain h l as"
  shows "LinkedList_nodes h l = as"
proof -
  obtain d ds where s: "as @ [mTail l] = d # ds" by (cases "as @ [mTail l]") auto
  then have len: "length ds = length as"
    by (metis length_append_singleton length_Cons nat.inject)
  from c have "links h (d # ds)"
    using s by (simp add: LinkedList_chain_def ring_def)
  from walk_links [OF this, of "length as"] len
  have "walk h d (length as) = take (length as) (as @ [mTail l])"
    by (simp add: s)
  moreover have "d = hd (as @ [mTail l])" unfolding s by simp
  ultimately show ?thesis
    using chain_begin [OF c] c by (simp add: LinkedList_nodes_def LinkedList_chain_def)
qed

lemma wf_chain: "LinkedList_wf h l \<longleftrightarrow> (\<exists>as. LinkedList_chain h l as)"
  using chain_nodes [of h l] by (auto simp: LinkedList_wf_def)

lemma chain_wf: "LinkedList_chain h l as \<Longrightarrow> LinkedList_wf h l"
  by (auto simp: wf_chain)

lemma chain_elems: "LinkedList_chain h l as \<Longrightarrow> LinkedList_elems h l = items h as"
  by (simp add: LinkedList_elems_def chain_nodes)


text \<open>The cells a list owns: its dummy node and its nodes.\<close>

definition LinkedList_cells :: "'a nheap \<Rightarrow> LinkedList \<Rightarrow> addr set" where
  "LinkedList_cells h l = set (mTail l # LinkedList_nodes h l)"

lemma chain_cells: "LinkedList_chain h l as \<Longrightarrow> LinkedList_cells h l = set (mTail l # as)"
  by (simp add: LinkedList_cells_def chain_nodes)

lemma chain_cells_less: "LinkedList_chain h l as \<Longrightarrow> a \<in> set (mTail l # as) \<Longrightarrow> a < length h"
  using ring_allocated [OF chain_ring, of h l as a] by (auto dest: cell_Some_less)

lemma wf_cells_less:
  assumes "LinkedList_wf h l" and "a \<in> LinkedList_cells h l"
  shows "a < length h"
proof -
  from assms(1) obtain as where c: "LinkedList_chain h l as" by (auto simp: wf_chain)
  with assms(2) have "a \<in> set (mTail l # as)" by (simp add: chain_cells)
  with c show ?thesis by (rule chain_cells_less)
qed

lemma chain_split_at:
  assumes c: "LinkedList_chain h l as" and i: "index < mSize_L l"
  obtains as1 a as2 where "as = as1 @ a # as2" and "unat index = length as1"
    and "items h as1 = take (unat index) (items h as)"
    and "items h as2 = drop (Suc (unat index)) (items h as)"
    and "items h (a # as2) = drop (unat index) (items h as)"
    and "itm h a = Some (items h as ! unat index)"
proof -
  let ?i = "unat index"
  from c i have lt: "?i < length as"
    by (simp add: LinkedList_chain_def word_less_nat_alt)
  have s: "as = take ?i as @ as ! ?i # drop (Suc ?i) as"
    using lt by (rule id_take_nth_drop)
  have len: "?i = length (take ?i as)" using lt by simp
  note al = chain_allocated [OF c]
  have 1: "items h (take ?i as) = take ?i (items h as)"
    using al by (rule items_take)
  have 2: "items h (drop (Suc ?i) as) = drop (Suc ?i) (items h as)"
    using al by (rule items_take)
  have "items h (drop ?i as) = drop ?i (items h as)"
    using al by (rule items_take)
  then have 3: "items h (as ! ?i # drop (Suc ?i) as) = drop ?i (items h as)"
    using lt by (simp only: Cons_nth_drop_Suc)
  have 4: "itm h (as ! ?i) = Some (items h as ! ?i)"
    using c lt by (rule chain_items_nth)
  from s len 1 2 3 4 show ?thesis by (rule that)
qed


lemma LinkedList_add_wf:
  assumes wf: "LinkedList_wf h l" and fits: "unat (mSize_L l) + 1 < (2::nat) ^ 64"
  shows "\<exists>l' h'. LinkedList_add v l h = Some (l', h') \<and> LinkedList_wf h' l' \<and>
           mSize_L l' = mSize_L l + 1 \<and> unat (mSize_L l') = unat (mSize_L l) + 1 \<and>
           mTail l' = mTail l \<and>
           LinkedList_elems h' l' = LinkedList_elems h l @ [v] \<and>
           unchanged_outside h h' (LinkedList_cells h l) \<and>
           LinkedList_cells h' l' \<subseteq> LinkedList_cells h l \<union> {a. length h \<le> a}"
proof -
  from wf obtain as where c: "LinkedList_chain h l as" by (auto simp: wf_chain)
  let ?l' = "l\<lparr>mSize_L := mSize_L l + 1\<rparr>"
  from LinkedList_add_links [OF chain_ring [OF c], of v]
  obtain h' where h': "LinkedList_add v l h = Some (?l', h')" "length h' = Suc (length h)"
    "ring h' (mTail l) (as @ [length h])" "items h' (as @ [length h]) = items h as @ [v]"
    "unchanged_outside h h' (set (mTail l # as))"
    by auto
  have u: "unat (mSize_L l + 1) = unat (mSize_L l) + 1"
    using fits by (simp add: unat_word_ariths)
  have c': "LinkedList_chain h' ?l' (as @ [length h])"
    using h'(3) c u by (simp add: LinkedList_chain_def)
  show ?thesis
    using h'(1,4,5) c' u c
    by (intro exI [of _ ?l'] exI [of _ h'])
      (auto simp: chain_wf chain_elems [OF c'] chain_elems [OF c] chain_cells [OF c'] chain_cells [OF c])
qed

lemma LinkedList_remove_wf:
  assumes wf: "LinkedList_wf h l" and i: "index < mSize_L l"
  shows "\<exists>l' h'. LinkedList_remove index l h = Returns () (l', h') \<and> LinkedList_wf h' l' \<and>
           mSize_L l' = mSize_L l - 1 \<and> unat (mSize_L l') = unat (mSize_L l) - 1 \<and>
           mTail l' = mTail l \<and>
           LinkedList_elems h' l' =
             take (unat index) (LinkedList_elems h l) @ drop (Suc (unat index)) (LinkedList_elems h l) \<and>
           unchanged_outside h h' (LinkedList_cells h l) \<and>
           LinkedList_cells h' l' \<subseteq> LinkedList_cells h l \<union> {a. length h \<le> a}"
proof -
  from wf obtain as where c: "LinkedList_chain h l as" by (auto simp: wf_chain)
  from c i obtain as1 a as2 where s: "as = as1 @ a # as2" "unat index = length as1"
    "items h as1 = take (unat index) (items h as)"
    "items h as2 = drop (Suc (unat index)) (items h as)"
    by (rule chain_split_at)
  let ?l' = "l\<lparr>mSize_L := mSize_L l - 1\<rparr>"
  from LinkedList_remove_ok [OF c [unfolded s(1)] s(2)]
  obtain h' where h': "LinkedList_remove index l h = Returns () (?l', h')"
    "LinkedList_chain h' ?l' (as1 @ as2)" "items h' (as1 @ as2) = items h as1 @ items h as2"
    "unchanged_outside h h' (set (mTail l # as1 @ a # as2))"
    by auto
  have nz: "mSize_L l \<noteq> 0" using i by auto
  have u: "unat (mSize_L l - 1) = unat (mSize_L l) - 1" using nz by (rule unat_minus_one)
  show ?thesis
    using h'(1,3,4) u s
    by (intro exI [of _ ?l'] exI [of _ h'])
      (auto simp: chain_wf [OF h'(2)] chain_elems [OF h'(2)] chain_elems [OF c]
        chain_cells [OF h'(2)] chain_cells [OF c])
qed

lemma LinkedList_set_wf:
  assumes wf: "LinkedList_wf h l" and i: "index < mSize_L l"
  shows "\<exists>h'. LinkedList_set index v l h = Returns () (l, h') \<and> LinkedList_wf h' l \<and>
           LinkedList_elems h' l = (LinkedList_elems h l)[unat index := v] \<and>
           unchanged_outside h h' (LinkedList_cells h l) \<and>
           LinkedList_cells h' l \<subseteq> LinkedList_cells h l \<union> {a. length h \<le> a}"
proof -
  from wf obtain as where c: "LinkedList_chain h l as" by (auto simp: wf_chain)
  from c i obtain as1 a as2 where s: "as = as1 @ a # as2" "unat index = length as1"
    "items h as1 = take (unat index) (items h as)"
    "items h as2 = drop (Suc (unat index)) (items h as)"
    by (rule chain_split_at)
  from c i have lt: "unat index < length (items h as)"
    by (simp add: chain_items_length) (simp add: LinkedList_chain_def word_less_nat_alt)
  from LinkedList_set_ok [OF c [unfolded s(1)] s(2), of v]
  obtain h' where h': "LinkedList_set index v l h = Returns () (l, h')"
    "LinkedList_chain h' l (as1 @ length h # as2)"
    "items h' (as1 @ length h # as2) = items h as1 @ v # items h as2"
    "unchanged_outside h h' (set (mTail l # as1 @ a # as2))"
    by auto
  have "items h as1 @ v # items h as2 = (items h as)[unat index := v]"
    using lt by (simp add: s(3,4) upd_conv_take_nth_drop)
  then show ?thesis
    using h'(1,3,4) s(1)
    by (intro exI [of _ h'])
      (auto simp: chain_wf [OF h'(2)] chain_elems [OF h'(2)] chain_elems [OF c]
        chain_cells [OF h'(2)] chain_cells [OF c])
qed

lemma LinkedList_clear_wf:
  assumes wf: "LinkedList_wf h l"
  shows "\<exists>l' h'. LinkedList_clear l h = Some (l', h') \<and> LinkedList_wf h' l' \<and>
           l' = fst (LinkedList_ctor h) \<and> cell h' (mTail l') = cell (snd (LinkedList_ctor h)) (mTail l') \<and>
           mSize_L l' = 0 \<and> LinkedList_elems h' l' = [] \<and>
           (\<forall>a\<in>LinkedList_cells h l. cell h' a = None) \<and>
           unchanged_outside h h' (LinkedList_cells h l) \<and>
           LinkedList_cells h' l' \<subseteq> LinkedList_cells h l \<union> {a. length h \<le> a}"
proof -
  from wf obtain as where c: "LinkedList_chain h l as" by (auto simp: wf_chain)
  let ?l' = "\<lparr>mSize_L = 0, mTail = length h\<rparr>"
  from LinkedList_clear_ok [OF c]
  obtain h' where h': "LinkedList_clear l h = Some (?l', h')"
    "LinkedList_chain h' ?l' []"
    "cell h' (length h) = Some \<lparr>mItem = default, mPrev = length h, mNext = length h\<rparr>"
    "\<forall>a\<in>set (mTail l # as). cell h' a = None"
    "unchanged_outside h h' (set (mTail l # as))"
    by auto
  show ?thesis
    using h'(1,3,4,5)
    by (intro exI [of _ ?l'] exI [of _ h'])
      (auto simp: chain_wf [OF h'(2)] chain_elems [OF h'(2)] chain_cells [OF h'(2)] chain_cells [OF c]
        LinkedList_ctor_ok cell_alloc)
qed

lemma LinkedList_add_at_wf:
  assumes wf: "LinkedList_wf h l"
    and fits: "max (unat index) (unat (mSize_L l)) + 1 < (2::nat) ^ 64"
  shows "\<exists>l' h'. LinkedList_add_at index v l h = Some (l', h') \<and> LinkedList_wf h' l' \<and>
           unat (mSize_L l') = max (unat index) (unat (mSize_L l)) + 1 \<and>
           mTail l' = mTail l \<and>
           LinkedList_elems h' l' =
             (if index < mSize_L l
              then take (unat index) (LinkedList_elems h l) @ v # drop (unat index) (LinkedList_elems h l)
              else LinkedList_elems h l @ replicate (unat index - unat (mSize_L l)) default @ [v]) \<and>
           unchanged_outside h h' (LinkedList_cells h l) \<and>
           LinkedList_cells h' l' \<subseteq> LinkedList_cells h l \<union> {a. length h \<le> a}"
proof -
  from wf obtain as where c: "LinkedList_chain h l as" by (auto simp: wf_chain)
  show ?thesis
  proof (cases "index < mSize_L l")
    case True
    then have lt: "unat index < unat (mSize_L l)" by (simp add: word_less_nat_alt)
    from c True obtain as1 a as2 where s: "as = as1 @ a # as2" "unat index = length as1"
      "items h as1 = take (unat index) (items h as)"
      "items h (a # as2) = drop (unat index) (items h as)"
      by (rule chain_split_at)
    let ?l' = "l\<lparr>mSize_L := mSize_L l + 1\<rparr>"
    from LinkedList_add_at_insert [OF c [unfolded s(1)] True s(2), of v]
    obtain h' where h': "LinkedList_add_at index v l h = Some (?l', h')"
      "distinct (mTail l # as1 @ length h # a # as2)"
      "links h' (mTail l # (as1 @ length h # a # as2) @ [mTail l])"
      "items h' (as1 @ length h # a # as2) = items h as1 @ v # items h (a # as2)"
      "unchanged_outside h h' (set (mTail l # as1 @ a # as2))"
      by auto
    have u: "unat (mSize_L l + 1) = unat (mSize_L l) + 1"
      using fits lt by (simp add: unat_word_ariths)
    have c': "LinkedList_chain h' ?l' (as1 @ length h # a # as2)"
      using h'(2,3) c u s(1) by (simp add: LinkedList_chain_def ring_def)
    have m: "max (unat index) (unat (mSize_L l)) = unat (mSize_L l)" using lt by simp
    show ?thesis
      using h'(1,4,5) True u s m
      by (intro exI [of _ ?l'] exI [of _ h'])
        (auto simp: chain_wf [OF c'] chain_elems [OF c'] chain_elems [OF c]
          chain_cells [OF c'] chain_cells [OF c])
  next
    case False
    then have ge: "mSize_L l \<le> index" by simp
    then have le: "unat (mSize_L l) \<le> unat index" by (simp add: word_le_nat_alt)
    let ?l' = "l\<lparr>mSize_L := index + 1\<rparr>"
    from LinkedList_add_at_extend [OF c ge, of v]
    obtain h' ns where h': "LinkedList_add_at index v l h = Some (?l', h')"
      "ring h' (mTail l) (as @ ns)" "length ns = unat index - unat (mSize_L l) + 1"
      "items h' (as @ ns) = items h as @ replicate (unat index - unat (mSize_L l)) default @ [v]"
      "\<forall>n\<in>set ns. length h \<le> n" "unchanged_outside h h' (set (mTail l # as))"
      by blast
    have u: "unat (index + 1) = unat index + 1"
      using fits le by (simp add: unat_word_ariths)
    have c': "LinkedList_chain h' ?l' (as @ ns)"
      using h'(2,3) c u le by (simp add: LinkedList_chain_def)
    have m: "max (unat index) (unat (mSize_L l)) = unat index" using le by simp
    show ?thesis
      using h'(1,4,5,6) False u m
      by (intro exI [of _ ?l'] exI [of _ h'])
        (auto simp: chain_wf [OF c'] chain_elems [OF c'] chain_elems [OF c]
          chain_cells [OF c'] chain_cells [OF c])
  qed
qed

lemma LinkedList_copy_ctor_wf:
  assumes wf: "LinkedList_wf h src"
  shows "\<exists>l' h'. LinkedList_copy_ctor src h = Some (Some (l', h')) \<and> LinkedList_wf h' l' \<and>
           mSize_L l' = mSize_L src \<and> LinkedList_elems h' l' = LinkedList_elems h src \<and>
           unchanged_outside h h' {} \<and> LinkedList_cells h' l' \<subseteq> {a. length h \<le> a}"
proof -
  from wf obtain ss where c: "LinkedList_chain h src ss" by (auto simp: wf_chain)
  let ?l' = "\<lparr>mSize_L = mSize_L src, mTail = Suc (length h)\<rparr>"
  from LinkedList_copy_ctor_ok [OF c]
  obtain h' cs where h': "LinkedList_copy_ctor src h = Some (Some (?l', h'))"
    "LinkedList_chain h' ?l' cs" "items h' cs = items h ss" "\<forall>c\<in>set cs. length h \<le> c"
    "unchanged_outside h h' {}"
    by blast
  show ?thesis
    using h'(1,3,4,5)
    by (intro exI [of _ ?l'] exI [of _ h'])
      (auto simp: chain_wf [OF h'(2)] chain_elems [OF h'(2)] chain_elems [OF c] chain_cells [OF h'(2)])
qed

lemma LinkedList_assign_wf:
  assumes wl: "LinkedList_wf h l" and wr: "LinkedList_wf h r" and ne: "ta \<noteq> ra"
  shows "\<exists>l' h'. LinkedList_assign (ta, l) (ra, r) h = Some (Some (l', h')) \<and> LinkedList_wf h' l' \<and>
           mSize_L l' = mSize_L r \<and> LinkedList_elems h' l' = LinkedList_elems h r \<and>
           (\<forall>a\<in>LinkedList_cells h l. cell h' a = None) \<and>
           unchanged_outside h h' (LinkedList_cells h l) \<and>
           LinkedList_cells h' l' \<subseteq> {a. length h \<le> a}"
proof -
  from wl obtain as where cl: "LinkedList_chain h l as" by (auto simp: wf_chain)
  from wr obtain bs where cr: "LinkedList_chain h r bs" by (auto simp: wf_chain)
  let ?l' = "\<lparr>mSize_L = mSize_L r, mTail = Suc (length h)\<rparr>"
  from LinkedList_assign_ok [OF cl cr ne]
  obtain h' cs where h': "LinkedList_assign (ta, l) (ra, r) h = Some (Some (?l', h'))"
    "LinkedList_chain h' ?l' cs" "items h' cs = items h bs" "\<forall>c\<in>set cs. length h \<le> c"
    "\<forall>a\<in>set (mTail l # as). cell h' a = None" "unchanged_outside h h' (set (mTail l # as))"
    by blast
  show ?thesis
    using h'(1,3,4,5,6)
    by (intro exI [of _ ?l'] exI [of _ h'])
      (auto simp: chain_wf [OF h'(2)] chain_elems [OF h'(2)] chain_elems [OF cr] chain_cells [OF h'(2)]
        chain_cells [OF cl])
qed

lemma LinkedList_eq_wf:
  assumes "LinkedList_wf h l" and "LinkedList_wf h r"
  shows "LinkedList_eq l r h = Some (Some (LinkedList_elems h l = LinkedList_elems h r))"
  using assms by (auto simp: wf_chain chain_elems LinkedList_eq_ok)

text \<open>What some other list owns is not touched.\<close>

lemma LinkedList_wf_frame:
  assumes wf: "LinkedList_wf h s" and fr: "unchanged_outside h h' A"
    and dis: "A \<inter> LinkedList_cells h s = {}"
  shows "LinkedList_wf h' s" and "LinkedList_elems h' s = LinkedList_elems h s"
    and "LinkedList_cells h' s = LinkedList_cells h s"
proof -
  from wf obtain as where c: "LinkedList_chain h s as" by (auto simp: wf_chain)
  from dis have d: "A \<inter> set (mTail s # as) = {}" by (simp add: chain_cells [OF c])
  from chain_frame [OF c fr d] have c': "LinkedList_chain h' s as" and i: "items h' as = items h as"
    by simp_all
  show "LinkedList_wf h' s" using c' by (rule chain_wf)
  show "LinkedList_elems h' s = LinkedList_elems h s"
    by (simp add: chain_elems [OF c] chain_elems [OF c'] i)
  show "LinkedList_cells h' s = LinkedList_cells h s"
    by (simp add: chain_cells [OF c] chain_cells [OF c'])
qed

section \<open>Two linked lists in one heap\<close>

text \<open>
  Two lists are separate when both are well formed and they own disjoint sets of nodes.
\<close>

definition LinkedList_separate :: "'a nheap \<Rightarrow> LinkedList \<Rightarrow> LinkedList \<Rightarrow> bool" where
  "LinkedList_separate h s t \<longleftrightarrow>
     LinkedList_wf h s \<and> LinkedList_wf h t \<and> LinkedList_cells h s \<inter> LinkedList_cells h t = {}"

lemma LinkedList_separate_sym: "LinkedList_separate h s t \<Longrightarrow> LinkedList_separate h t s"
  by (auto simp: LinkedList_separate_def)

lemma LinkedList_separate_step:
  assumes sep: "LinkedList_separate h s t" and wf: "LinkedList_wf h' t'"
    and fr: "unchanged_outside h h' (LinkedList_cells h t)"
    and sub: "LinkedList_cells h' t' \<subseteq> LinkedList_cells h t \<union> {a. length h \<le> a}"
  shows "LinkedList_separate h' s t' \<and> LinkedList_elems h' s = LinkedList_elems h s"
proof -
  from sep have ws: "LinkedList_wf h s"
    and dis: "LinkedList_cells h t \<inter> LinkedList_cells h s = {}"
    by (auto simp: LinkedList_separate_def)
  note f = LinkedList_wf_frame [OF ws fr dis]
  have "LinkedList_cells h s \<inter> LinkedList_cells h' t' = {}"
  proof (rule ccontr)
    assume "LinkedList_cells h s \<inter> LinkedList_cells h' t' \<noteq> {}"
    then obtain a where a: "a \<in> LinkedList_cells h s" "a \<in> LinkedList_cells h' t'" by blast
    from wf_cells_less [OF ws a(1)] have "a < length h" .
    with a(2) sub have "a \<in> LinkedList_cells h t" by auto
    with a(1) dis show False by blast
  qed
  with f wf show ?thesis
    by (simp add: LinkedList_separate_def)
qed

lemma LinkedList_mutate_ok:
  assumes sep: "LinkedList_separate h s t" and fits: "LinkedList_fits m t"
  shows "\<exists>t' h'. LinkedList_mutate m t h = Some (t', h') \<and> LinkedList_separate h' s t' \<and>
           LinkedList_elems h' s = LinkedList_elems h s"
proof -
  from sep have wt: "LinkedList_wf h t" by (simp add: LinkedList_separate_def)
  note step = LinkedList_separate_step [OF sep]
  have same: "LinkedList_separate h s t \<and> LinkedList_elems h s = LinkedList_elems h s"
    using sep by simp
  show ?thesis
  proof (cases m)
    case (Add v)
    with fits have f: "unat (mSize_L t) + 1 < (2::nat) ^ 64" by simp
    from LinkedList_add_wf [OF wt f, of v] obtain t' h' where
      a: "LinkedList_add v t h = Some (t', h')" "LinkedList_wf h' t'"
      "unchanged_outside h h' (LinkedList_cells h t)"
      "LinkedList_cells h' t' \<subseteq> LinkedList_cells h t \<union> {a. length h \<le> a}"
      by blast
    from step [OF a(2-4)] a(1) Add show ?thesis by simp
  next
    case (AddAt i v)
    with fits have f: "max (unat i) (unat (mSize_L t)) + 1 < (2::nat) ^ 64" by simp
    from LinkedList_add_at_wf [OF wt f, of v] obtain t' h' where
      a: "LinkedList_add_at i v t h = Some (t', h')" "LinkedList_wf h' t'"
      "unchanged_outside h h' (LinkedList_cells h t)"
      "LinkedList_cells h' t' \<subseteq> LinkedList_cells h t \<union> {a. length h \<le> a}"
      by blast
    from step [OF a(2-4)] a(1) AddAt show ?thesis by simp
  next
    case (Set i v)
    show ?thesis
    proof (cases "i < mSize_L t")
      case True
      from LinkedList_set_wf [OF wt True, of v] obtain h' where
        a: "LinkedList_set i v t h = Returns () (t, h')" "LinkedList_wf h' t"
        "unchanged_outside h h' (LinkedList_cells h t)"
        "LinkedList_cells h' t \<subseteq> LinkedList_cells h t \<union> {a. length h \<le> a}"
        by blast
      from step [OF a(2-4)] a(1) Set show ?thesis by (simp add: caught_def)
    next
      case False
      then have "LinkedList_set i v t h = Throws (OutOfRange i) (t, h)"
        by (simp add: LinkedList_set_throws)
      with same Set show ?thesis by (simp add: caught_def)
    qed
  next
    case (Remove i)
    show ?thesis
    proof (cases "i < mSize_L t")
      case True
      from LinkedList_remove_wf [OF wt True] obtain t' h' where
        a: "LinkedList_remove i t h = Returns () (t', h')" "LinkedList_wf h' t'"
        "unchanged_outside h h' (LinkedList_cells h t)"
        "LinkedList_cells h' t' \<subseteq> LinkedList_cells h t \<union> {a. length h \<le> a}"
        by blast
      from step [OF a(2-4)] a(1) Remove show ?thesis by (simp add: caught_def)
    next
      case False
      then have "LinkedList_remove i t h = Throws (OutOfRange i) (t, h)"
        by (simp add: LinkedList_remove_throws)
      with same Remove show ?thesis by (simp add: caught_def)
    qed
  next
    case Clear
    from LinkedList_clear_wf [OF wt] obtain t' h' where
      a: "LinkedList_clear t h = Some (t', h')" "LinkedList_wf h' t'"
      "unchanged_outside h h' (LinkedList_cells h t)"
      "LinkedList_cells h' t' \<subseteq> LinkedList_cells h t \<union> {a. length h \<le> a}"
      by blast
    from step [OF a(2-4)] a(1) Clear show ?thesis by simp
  qed
qed

lemma LinkedList_step_separate:
  assumes "LinkedList_step ((s, t), h) ((s', t'), h')" and "LinkedList_separate h s t"
  shows "LinkedList_separate h' s' t'"
  using assms
proof (cases rule: LinkedList_step.cases)
  case (LinkedList_on_s m)
  from LinkedList_mutate_ok [OF LinkedList_separate_sym [OF assms(2)] LinkedList_on_s(2)] LinkedList_on_s(1,3)
  show ?thesis by (auto dest: LinkedList_separate_sym)
next
  case (LinkedList_on_t m)
  from LinkedList_mutate_ok [OF assms(2) LinkedList_on_t(2)] LinkedList_on_t(1,3)
  show ?thesis by auto
qed

lemma LinkedList_steps_separate_aux:
  assumes "LinkedList_step\<^sup>*\<^sup>* x y" and "LinkedList_separate (snd x) (fst (fst x)) (snd (fst x))"
  shows "LinkedList_separate (snd y) (fst (fst y)) (snd (fst y))"
  using assms
proof (induction rule: rtranclp_induct)
  case base
  then show ?case by simp
next
  case (step y z)
  obtain s1 t1 h1 where y: "y = ((s1, t1), h1)" by (cases y) auto
  obtain s2 t2 h2 where z: "z = ((s2, t2), h2)" by (cases z) auto
  from step.hyps(2) have "LinkedList_step ((s1, t1), h1) ((s2, t2), h2)"
    by (simp add: y z)
  from LinkedList_step_separate [OF this] step.IH [OF step.prems] show ?case
    by (simp add: y z)
qed

lemma LinkedList_steps_separate:
  assumes "LinkedList_step\<^sup>*\<^sup>* ((s, t), h) ((s', t'), h')" and "LinkedList_separate h s t"
  shows "LinkedList_separate h' s' t'"
  using LinkedList_steps_separate_aux [OF assms(1)] assms(2) by simp

text \<open>
  Two lists are independent when, whatever mutating calls were made on them so far,
  the next such call on one of them succeeds and leaves the other one well formed, with
  the elements it had.
\<close>

definition LinkedList_independent :: "'a::default nheap \<Rightarrow> LinkedList \<Rightarrow> LinkedList \<Rightarrow> bool" where
  "LinkedList_independent h s t \<longleftrightarrow>
     (\<forall>s' t' h' m. LinkedList_step\<^sup>*\<^sup>* ((s, t), h) ((s', t'), h') \<longrightarrow>
        (LinkedList_fits m t' \<longrightarrow>
           (\<exists>t'' h''. LinkedList_mutate m t' h' = Some (t'', h'') \<and>
              LinkedList_wf h'' s' \<and> LinkedList_elems h'' s' = LinkedList_elems h' s')) \<and>
        (LinkedList_fits m s' \<longrightarrow>
           (\<exists>s'' h''. LinkedList_mutate m s' h' = Some (s'', h'') \<and>
              LinkedList_wf h'' t' \<and> LinkedList_elems h'' t' = LinkedList_elems h' t')))"

lemma LinkedList_separate_independent:
  assumes "LinkedList_separate h s t"
  shows "LinkedList_independent h s t"
  unfolding LinkedList_independent_def
proof (intro allI impI conjI)
  fix s' t' h' and m :: "'a mutation"
  assume "LinkedList_step\<^sup>*\<^sup>* ((s, t), h) ((s', t'), h')"
  from LinkedList_steps_separate [OF this assms] have sep: "LinkedList_separate h' s' t'" .
  {
    assume "LinkedList_fits m t'"
    from LinkedList_mutate_ok [OF sep this]
    show "\<exists>t'' h''. LinkedList_mutate m t' h' = Some (t'', h'') \<and>
        LinkedList_wf h'' s' \<and> LinkedList_elems h'' s' = LinkedList_elems h' s'"
      by (auto simp: LinkedList_separate_def)
  next
    assume "LinkedList_fits m s'"
    from LinkedList_mutate_ok [OF LinkedList_separate_sym [OF sep] this]
    show "\<exists>s'' h''. LinkedList_mutate m s' h' = Some (s'', h'') \<and>
        LinkedList_wf h'' t' \<and> LinkedList_elems h'' t' = LinkedList_elems h' t'"
      by (auto simp: LinkedList_separate_def)
  }
qed

text \<open>What a copy of \<open>s\<close> is: a list \<open>t\<close> equal to \<open>s\<close>, and independent of it.\<close>

definition LinkedList_copy_of ::
  "'a::default nheap \<Rightarrow> LinkedList \<Rightarrow> (LinkedList \<times> 'a nheap) option option \<Rightarrow> bool" where
  "LinkedList_copy_of h s r \<longleftrightarrow>
     (\<exists>t h'. r = Some (Some (t, h')) \<and> LinkedList_eq t s h' = Some (Some True) \<and>
        LinkedList_size t = LinkedList_size s \<and> LinkedList_elems h' t = LinkedList_elems h s \<and>
        LinkedList_elems h' s = LinkedList_elems h s \<and> LinkedList_independent h' s t)"

lemma LinkedList_copy_ofI:
  assumes ws: "LinkedList_wf h s" and r: "r = Some (Some (t, h'))" and wt: "LinkedList_wf h' t"
    and e: "LinkedList_elems h' t = LinkedList_elems h s" and sz: "mSize_L t = mSize_L s"
    and fr: "unchanged_outside h h' A" and out: "A \<inter> LinkedList_cells h s = {}"
    and new: "LinkedList_cells h' t \<subseteq> {a. length h \<le> a}"
  shows "LinkedList_copy_of h s r"
proof -
  from LinkedList_wf_frame [OF ws fr out]
  have ws': "LinkedList_wf h' s" and es: "LinkedList_elems h' s = LinkedList_elems h s"
    and cs: "LinkedList_cells h' s = LinkedList_cells h s" .
  have "LinkedList_cells h' s \<inter> LinkedList_cells h' t = {}"
  proof (rule ccontr)
    assume "LinkedList_cells h' s \<inter> LinkedList_cells h' t \<noteq> {}"
    then obtain a where a: "a \<in> LinkedList_cells h s" "a \<in> LinkedList_cells h' t"
      unfolding cs by blast
    from wf_cells_less [OF ws a(1)] a(2) new show False by auto
  qed
  with ws' wt have sep: "LinkedList_separate h' s t"
    by (simp add: LinkedList_separate_def)
  from LinkedList_eq_wf [OF wt ws'] e es have "LinkedList_eq t s h' = Some (Some True)"
    by simp
  with r e es sz LinkedList_separate_independent [OF sep] show ?thesis
    by (simp add: LinkedList_copy_of_def LinkedList_size_def)
qed

lemma LinkedList_copy_ctor_copy_of:
  assumes ws: "LinkedList_wf h s"
  shows "LinkedList_copy_of h s (LinkedList_copy_ctor s h)"
proof -
  from LinkedList_copy_ctor_wf [OF ws] obtain t h' where
    c: "LinkedList_copy_ctor s h = Some (Some (t, h'))" "LinkedList_wf h' t"
    "LinkedList_elems h' t = LinkedList_elems h s" "mSize_L t = mSize_L s"
    "unchanged_outside h h' {}" "LinkedList_cells h' t \<subseteq> {a. length h \<le> a}"
    by blast
  show ?thesis
    by (rule LinkedList_copy_ofI [OF ws c(1-5) _ c(6)]) simp
qed

lemma LinkedList_assign_copy_of:
  assumes sep: "LinkedList_separate h s u" and ne: "pa \<noteq> qa"
  shows "LinkedList_copy_of h s (LinkedList_assign (pa, u) (qa, s) h)"
proof -
  from sep have ws: "LinkedList_wf h s" and wu: "LinkedList_wf h u"
    and d: "LinkedList_cells h u \<inter> LinkedList_cells h s = {}"
    by (auto simp: LinkedList_separate_def)
  from LinkedList_assign_wf [OF wu ws ne] obtain t h' where
    c: "LinkedList_assign (pa, u) (qa, s) h = Some (Some (t, h'))" "LinkedList_wf h' t"
    "LinkedList_elems h' t = LinkedList_elems h s" "mSize_L t = mSize_L s"
    "unchanged_outside h h' (LinkedList_cells h u)" "LinkedList_cells h' t \<subseteq> {a. length h \<le> a}"
    by blast
  show ?thesis
    by (rule LinkedList_copy_ofI [OF ws c(1-5) d c(6)])
qed

section \<open>Example lists\<close>

text \<open>
  Concrete heaps on which the operations are run, and the limits of \<open>new T[n]\<close> for two
  element types: \<open>n * sizeof(T)\<close> has to be a \<open>size_t\<close> value, with \<open>sizeof(int)\<close> 4 and
  \<open>sizeof(char)\<close> 1.
\<close>

definition int_limit :: nat where
  "int_limit = (2 ^ 64 - 1) div 4"

definition char_limit :: nat where
  "char_limit = 2 ^ 64 - 1"

text \<open>
  The linked list \<open>[1, 2, 3]\<close>: the dummy node in cell 0, the elements in cells 1 to 3.
\<close>

definition list123 :: "int nheap" where
  "list123 =
     [Some \<lparr>mItem = 0, mPrev = 3, mNext = 1\<rparr>, Some \<lparr>mItem = 1, mPrev = 0, mNext = 2\<rparr>,
      Some \<lparr>mItem = 2, mPrev = 1, mNext = 3\<rparr>, Some \<lparr>mItem = 3, mPrev = 2, mNext = 0\<rparr>]"

lemma list123_chain: "LinkedList_chain list123 \<lparr>mSize_L = 3, mTail = 0\<rparr> [1, 2, 3]"
  by (simp add: LinkedList_chain_def ring_def list123_def nxt_def prv_def cell_def)

lemma list123_wf: "LinkedList_wf list123 \<lparr>mSize_L = 3, mTail = 0\<rparr>"
  using list123_chain by (rule chain_wf)


section \<open>The claims\<close>

text \<open>
  C1. In both containers, for every index \<open>\<ge> size()\<close>, each of \<open>get(index)\<close>,
  \<open>set(index, value)\<close> and \<open>remove(index)\<close> throws \<open>std::out_of_range\<close> carrying the
  index, in a state that is the state before the call: the object and the whole heap,
  hence size and elements, are as they were.
\<close>

theorem C1_out_of_range:
  assumes "mSize la \<le> index" and "mSize_L ll \<le> index"
  shows "ArrayList_get index la ha = Throws (OutOfRange index) (la, ha) \<and>
         ArrayList_set index v la ha = Throws (OutOfRange index) (la, ha) \<and>
         ArrayList_remove lim index la (ha :: 'a::default aheap) = Throws (OutOfRange index) (la, ha) \<and>
         LinkedList_get index ll hl = Throws (OutOfRange index) (ll, hl) \<and>
         LinkedList_set index w ll hl = Throws (OutOfRange index) (ll, hl) \<and>
         LinkedList_remove index ll hl = Throws (OutOfRange index) (ll, hl)"
  using assms
  by (simp add: ArrayList_get_throws ArrayList_set_throws ArrayList_remove_throws
      LinkedList_get_throws LinkedList_set_throws LinkedList_remove_throws)

theorem C1_out_of_range_witness:
  "mSize \<lparr>mSize = 2, mCapacity = 4, mArray = 0\<rparr> \<le> (2 :: size_t) \<and>
   mSize_L \<lparr>mSize_L = 1, mTail = 0\<rparr> \<le> (2 :: size_t) \<and>
   ArrayList_remove int_limit 2 \<lparr>mSize = 2, mCapacity = 4, mArray = 0\<rparr> [Some [7, 8, 0, 0 :: int]] =
     Throws (OutOfRange 2) (\<lparr>mSize = 2, mCapacity = 4, mArray = 0\<rparr>, [Some [7, 8, 0, 0]]) \<and>
   LinkedList_get 2 \<lparr>mSize_L = 1, mTail = 0\<rparr>
       [Some \<lparr>mItem = 0 :: int, mPrev = 1, mNext = 1\<rparr>, Some \<lparr>mItem = 7, mPrev = 0, mNext = 0\<rparr>] =
     Throws (OutOfRange 2) (\<lparr>mSize_L = 1, mTail = 0\<rparr>,
       [Some \<lparr>mItem = 0, mPrev = 1, mNext = 1\<rparr>, Some \<lparr>mItem = 7, mPrev = 0, mNext = 0\<rparr>])"
proof -
  have a: "mSize \<lparr>mSize = 2, mCapacity = 4, mArray = 0\<rparr> \<le> (2 :: size_t)"
    by simp
  have b: "mSize_L \<lparr>mSize_L = 1, mTail = 0\<rparr> \<le> (2 :: size_t)"
    by simp
  from C1_out_of_range [OF a b, where ?'a = int and ?'b = int] a b show ?thesis
    by simp
qed

text \<open>
  C2. \<open>remove(i)\<close> with \<open>i < size()\<close> is to leave the elements before position \<open>i\<close> as
  they were, followed by those after position \<open>i\<close>, one position down, the size being
  one less; the ArrayList returns the element that was at \<open>i\<close>. The LinkedList does
  this (\<open>LinkedList_remove_wf\<close>), and so does the ArrayList on lists of fewer than \<open>2^31\<close>
  elements (\<open>ArrayList_remove_ok\<close>), such as \<open>[1, 2, 3]\<close>. But the ArrayList finds the two ranges that it copies into the new buffer with the
  \<open>int\<close> arithmetic of its iterators, and a position from \<open>2^31\<close> on is not an \<open>int\<close>. On
  the list of \<open>2^31 + 2\<close> elements made by the constructor, \<open>remove(2^31)\<close> has
  \<open>begin() + index\<close> at position \<open>- 2^31\<close>: the first \<open>std::copy\<close> has a negative number of
  steps and copies nothing, the second has \<open>2^32 + 1\<close> steps as a difference, which is 1
  as an \<open>int\<close>, and its one step reads at position \<open>1 - 2^31\<close>, outside the buffer.
\<close>

theorem C2_remove_int_positions:
  "ArrayList_remove int_limit 1 \<lparr>mSize = 3, mCapacity = 4, mArray = 0\<rparr> [Some [1, 2, 3, 0 :: int]] =
     Returns 2 (\<lparr>mSize = 2, mCapacity = 4, mArray = 1\<rparr>, [None, Some [1, 3, 0, 0]]) \<and>
   ArrayList_ctor char_limit 2147483650 x [] =
     Returns \<lparr>mSize = 2147483650, mCapacity = 4294967300, mArray = 0\<rparr>
       [Some (replicate 2147483650 x @ replicate 2147483650 default)] \<and>
   ArrayList_remove char_limit 2147483648 \<lparr>mSize = 2147483650, mCapacity = 4294967300, mArray = 0\<rparr>
       [Some (replicate 2147483650 x @ replicate 2147483650 default)] = Undefined"
proof (intro conjI)
  show "ArrayList_remove int_limit 1 \<lparr>mSize = 3, mCapacity = 4, mArray = 0\<rparr> [Some [1, 2, 3, 0 :: int]] =
      Returns 2 (\<lparr>mSize = 2, mCapacity = 4, mArray = 1\<rparr>, [None, Some [1, 3, 0, 0]])"
    by (simp add: al_eval int_limit_def default_int_def replicate_numeral_Cons word_le_nat_alt word_less_nat_alt)
  show "ArrayList_ctor char_limit 2147483650 x [] =
      Returns \<lparr>mSize = 2147483650, mCapacity = 4294967300, mArray = 0\<rparr>
        [Some (replicate 2147483650 x @ replicate 2147483650 default)]"
    by (simp add: al_eval char_limit_def replicate_add [symmetric] del: replicate_add)
  show "ArrayList_remove char_limit 2147483648 \<lparr>mSize = 2147483650, mCapacity = 4294967300, mArray = 0\<rparr>
      [Some (replicate 2147483650 x @ replicate 2147483650 default)] = Undefined"
    by (simp add: al_eval char_limit_def nth_append)
qed

text \<open>
  C3. On an ArrayList whose size equals its capacity, \<open>add(value)\<close> is to obtain a new
  buffer of \<open>2 * size + 2\<close> slots, release the old one, and leave the old elements
  followed by \<open>value\<close>. With a value that is not an element of the list this is what
  happens on lists of fewer than \<open>2^31\<close> elements (\<open>ArrayList_add_ok\<close>): with capacity 4
  and size 4 the capacity is 10 afterwards. But \<open>value\<close> is a reference
  that is read after the old buffer is released. In \<open>a.add(a.get(0))\<close> it refers to slot
  0 of that buffer, and \<open>mArray[mSize] = value\<close> reads released storage.
\<close>

theorem C3_add_reads_released_buffer:
  "ArrayList_add int_limit (Val 5) \<lparr>mSize = 4, mCapacity = 4, mArray = 0\<rparr> [Some [1, 2, 3, 4 :: int]] =
     Returns () (\<lparr>mSize = 5, mCapacity = 10, mArray = 1\<rparr>, [None, Some [1, 2, 3, 4, 5, 0, 0, 0, 0, 0]]) \<and>
   ArrayList_get_ref 0 \<lparr>mSize = 4, mCapacity = 4, mArray = 0\<rparr> [Some [1, 2, 3, 4 :: int]] =
     Returns (Slot 0 0) (\<lparr>mSize = 4, mCapacity = 4, mArray = 0\<rparr>, [Some [1, 2, 3, 4]]) \<and>
   ArrayList_add int_limit (Slot 0 0) \<lparr>mSize = 4, mCapacity = 4, mArray = 0\<rparr> [Some [1, 2, 3, 4 :: int]] =
     Undefined"
  by (simp add: al_eval int_limit_def default_int_def replicate_numeral_Cons)

text \<open>
  C4. \<open>add(index, value)\<close> on an ArrayList is to give a list of size
  \<open>max(index, size) + 1\<close> and capacity \<open>2 * (max(index, size) + 1)\<close> with \<open>value\<close> at
  position \<open>index\<close>; on the empty list \<open>add(0, 5)\<close> gives size 1 and \<open>get(0) == 5\<close>. So
  it does, and so does every call whose new capacity is a \<open>size_t\<close> value, on lists of
  fewer than \<open>2^31\<close> elements (\<open>ArrayList_add_at_ok\<close>). But \<open>newSize\<close> and \<open>newCap\<close> are computed in \<open>size_t\<close> with nothing to stop
  them from wrapping around. For \<open>index = 2^64 - 1\<close> both are 0: on the list made by the
  default constructor, \<open>add(2^64 - 1, 5)\<close> obtains a buffer of no slots and \<open>std::fill\<close>
  writes from its start on, outside the buffer.
\<close>

theorem C4_add_at_size_wraps:
  "ArrayList_ctor int_limit 0 (default :: int) [] = Returns \<lparr>mSize = 0, mCapacity = 0, mArray = 0\<rparr> [Some []] \<and>
   ArrayList_add_at int_limit 0 (5 :: int) \<lparr>mSize = 0, mCapacity = 0, mArray = 0\<rparr> [Some []] =
     Returns () (\<lparr>mSize = 1, mCapacity = 2, mArray = 1\<rparr>, [None, Some [5, 0]]) \<and>
   ArrayList_get 0 \<lparr>mSize = 1, mCapacity = 2, mArray = 1\<rparr> [None, Some [5, 0 :: int]] =
     Returns 5 (\<lparr>mSize = 1, mCapacity = 2, mArray = 1\<rparr>, [None, Some [5, 0]]) \<and>
   ArrayList_add_at int_limit 18446744073709551615 (5 :: int) \<lparr>mSize = 0, mCapacity = 0, mArray = 0\<rparr> [Some []] =
     Undefined"
  by (simp add: al_eval ArrayList_get_def int_limit_def default_int_def replicate_numeral_Cons)




text \<open>
  C7. \<open>add(v)\<close> is to make \<open>size()\<close> one larger, with \<open>get(size() - 1)\<close> equal to \<open>v\<close>
  afterwards and the elements stored before as they were. The LinkedList does this
  (\<open>LinkedList_add_wf\<close>): it reads \<open>value\<close> at once, into the new node. The ArrayList reads
  the reference \<open>value\<close> last, after a full buffer has been replaced and released. On the
  list \<open>[7]\<close> of capacity 1 (the copy constructor makes such lists), \<open>a.add(a.get(0))\<close>
  reads slot 0 of the released buffer; with a value that is not an element of the list
  the result is \<open>[7, 7]\<close> (in general, \<open>ArrayList_add_ok\<close>).
\<close>

theorem C7_add_own_element:
  "ArrayList_copy_ctor int_limit \<lparr>mSize = 1, mCapacity = 2, mArray = 0\<rparr> [Some [7, 0 :: int]] =
     Returns \<lparr>mSize = 1, mCapacity = 1, mArray = 1\<rparr> [Some [7, 0], Some [7]] \<and>
   ArrayList_get_ref 0 \<lparr>mSize = 1, mCapacity = 1, mArray = 1\<rparr> [Some [7, 0 :: int], Some [7]] =
     Returns (Slot 1 0) (\<lparr>mSize = 1, mCapacity = 1, mArray = 1\<rparr>, [Some [7, 0], Some [7]]) \<and>
   ArrayList_add int_limit (Slot 1 0) \<lparr>mSize = 1, mCapacity = 1, mArray = 1\<rparr> [Some [7, 0 :: int], Some [7]] =
     Undefined \<and>
   ArrayList_add int_limit (Val 7) \<lparr>mSize = 1, mCapacity = 1, mArray = 1\<rparr> [Some [7, 0 :: int], Some [7]] =
     Returns () (\<lparr>mSize = 2, mCapacity = 4, mArray = 2\<rparr>, [Some [7, 0], None, Some [7, 7, 0, 0]])"
  by (simp add: al_eval int_limit_def default_int_def replicate_numeral_Cons)

text \<open>
  C8. The copy constructor and the assignment from a list \<open>S\<close> are to give a list \<open>T\<close>
  with \<open>T == S\<close>, and a later mutating call on one of the two lists is to leave the
  other one as it is. For the LinkedList this holds (\<open>LinkedList_copy_ctor_copy_of\<close>,
  \<open>LinkedList_assign_copy_of\<close>). The ArrayList copies a list of fewer than \<open>2^31\<close>
  elements into a buffer of its own (\<open>ArrayList_copy_ctor_ok\<close>): the copy of \<open>[1, 2, 3]\<close> is
  equal to the original. But a mutating call on the copy can leave
  its buffer: \<open>T.add(2^64 - 1, 5)\<close> has \<open>newSize\<close> and \<open>newCap\<close> wrap around to 0, and
  \<open>std::copy\<close> writes the three elements of \<open>T\<close> to a buffer of no slots, over whatever
  lies behind it in memory; nothing keeps that from being the storage of \<open>S\<close>. And
  from \<open>2^31\<close> elements on nothing is copied at all: \<open>src.end() - src.begin()\<close> is
  negative as an \<open>int\<close>, and the buffer of the copy stays as \<open>new T[n]\<close> made it.
\<close>

theorem C8_copy_not_independent:
  "ArrayList_copy_ctor int_limit \<lparr>mSize = 3, mCapacity = 4, mArray = 0\<rparr> [Some [1, 2, 3, 0 :: int]] =
     Returns \<lparr>mSize = 3, mCapacity = 3, mArray = 1\<rparr> [Some [1, 2, 3, 0], Some [1, 2, 3]] \<and>
   ArrayList_eq \<lparr>mSize = 3, mCapacity = 3, mArray = 1\<rparr> \<lparr>mSize = 3, mCapacity = 4, mArray = 0\<rparr>
     [Some [1, 2, 3, 0 :: int], Some [1, 2, 3]] = Some True \<and>
   ArrayList_add_at int_limit 18446744073709551615 5 \<lparr>mSize = 3, mCapacity = 3, mArray = 1\<rparr>
     [Some [1, 2, 3, 0 :: int], Some [1, 2, 3]] = Undefined \<and>
   ArrayList_copy_ctor char_limit \<lparr>mSize = 2147483648, mCapacity = 4294967296, mArray = 0\<rparr>
       [Some (replicate 2147483648 x @ replicate 2147483648 default)] =
     Returns \<lparr>mSize = 2147483648, mCapacity = 2147483648, mArray = 1\<rparr>
       [Some (replicate 2147483648 x @ replicate 2147483648 default), Some (replicate 2147483648 default)]"
proof (intro conjI)
  show "ArrayList_copy_ctor int_limit \<lparr>mSize = 3, mCapacity = 4, mArray = 0\<rparr> [Some [1, 2, 3, 0 :: int]] =
      Returns \<lparr>mSize = 3, mCapacity = 3, mArray = 1\<rparr> [Some [1, 2, 3, 0], Some [1, 2, 3]]"
    by (simp add: al_eval int_limit_def replicate_numeral_Cons)
  show "ArrayList_eq \<lparr>mSize = 3, mCapacity = 3, mArray = 1\<rparr> \<lparr>mSize = 3, mCapacity = 4, mArray = 0\<rparr>
      [Some [1, 2, 3, 0 :: int], Some [1, 2, 3]] = Some True"
    by (simp add: ArrayList_eq_def equal_range_def cell_def)
  show "ArrayList_add_at int_limit 18446744073709551615 5 \<lparr>mSize = 3, mCapacity = 3, mArray = 1\<rparr>
      [Some [1, 2, 3, 0 :: int], Some [1, 2, 3]] = Undefined"
    by (simp add: al_eval int_limit_def)
  show "ArrayList_copy_ctor char_limit \<lparr>mSize = 2147483648, mCapacity = 4294967296, mArray = 0\<rparr>
        [Some (replicate 2147483648 x @ replicate 2147483648 default)] =
      Returns \<lparr>mSize = 2147483648, mCapacity = 2147483648, mArray = 1\<rparr>
        [Some (replicate 2147483648 x @ replicate 2147483648 default), Some (replicate 2147483648 default)]"
    by (simp add: al_eval char_limit_def)
qed

text \<open>
  C9. In both containers \<open>clear()\<close> never fails. Afterwards the list is what the
  default constructor makes at that moment (the same object, with the same buffer or
  dummy node), of size 0 and without elements, and what it held before (the buffer
  of the ArrayList, the dummy node and the nodes of the LinkedList) is released. A
  second \<open>clear()\<close> right after the first one succeeds as well and leaves the list empty.
\<close>

theorem C9_clear:
  assumes "ArrayList_wf ha la" and "LinkedList_wf hl ll"
  shows "(\<exists>la' ha' h0 la'' ha''. ArrayList_clear lim la ha = Some (la', ha') \<and>
            ArrayList_ctor lim 0 default ha = Returns la' h0 \<and> cell ha' (mArray la') = cell h0 (mArray la') \<and>
            ArrayList_size la' = 0 \<and> ArrayList_isEmpty la' \<and> ArrayList_elems ha' la' = [] \<and>
            cell ha' (mArray la) = None \<and>
            ArrayList_clear lim la' ha' = Some (la'', ha'') \<and>
            ArrayList_size la'' = 0 \<and> ArrayList_isEmpty la'' \<and> ArrayList_elems ha'' la'' = []) \<and>
         (\<exists>ll' hl' ll'' hl''. LinkedList_clear ll hl = Some (ll', hl') \<and>
            ll' = fst (LinkedList_ctor hl) \<and>
            cell hl' (mTail ll') = cell (snd (LinkedList_ctor hl)) (mTail ll') \<and>
            LinkedList_size ll' = 0 \<and> LinkedList_isEmpty ll' \<and> LinkedList_elems hl' ll' = [] \<and>
            (\<forall>a\<in>LinkedList_cells hl ll. cell hl' a = None) \<and>
            LinkedList_clear ll' hl' = Some (ll'', hl'') \<and>
            LinkedList_size ll'' = 0 \<and> LinkedList_isEmpty ll'' \<and> LinkedList_elems hl'' ll'' = [])"
proof
  from ArrayList_clear_wf [OF assms(1), of lim]
  obtain la' ha' h0 where a: "ArrayList_clear lim la ha = Some (la', ha')" "ArrayList_wf ha' la'"
    "ArrayList_ctor lim 0 default ha = Returns la' h0" "cell ha' (mArray la') = cell h0 (mArray la')"
    "mSize la' = 0" "ArrayList_elems ha' la' = []" "cell ha' (mArray la) = None"
    by blast
  from ArrayList_clear_wf [OF a(2), of lim]
  obtain la'' ha'' where b: "ArrayList_clear lim la' ha' = Some (la'', ha'')"
    "mSize la'' = 0" "ArrayList_elems ha'' la'' = []"
    by blast
  from a b show "\<exists>la' ha' h0 la'' ha''. ArrayList_clear lim la ha = Some (la', ha') \<and>
      ArrayList_ctor lim 0 default ha = Returns la' h0 \<and> cell ha' (mArray la') = cell h0 (mArray la') \<and>
      ArrayList_size la' = 0 \<and> ArrayList_isEmpty la' \<and> ArrayList_elems ha' la' = [] \<and>
      cell ha' (mArray la) = None \<and>
      ArrayList_clear lim la' ha' = Some (la'', ha'') \<and>
      ArrayList_size la'' = 0 \<and> ArrayList_isEmpty la'' \<and> ArrayList_elems ha'' la'' = []"
    by (simp add: ArrayList_size_def ArrayList_isEmpty_def)
next
  from LinkedList_clear_wf [OF assms(2)]
  obtain ll' hl' where a: "LinkedList_clear ll hl = Some (ll', hl')" "LinkedList_wf hl' ll'"
    "ll' = fst (LinkedList_ctor hl)"
    "cell hl' (mTail ll') = cell (snd (LinkedList_ctor hl)) (mTail ll')"
    "mSize_L ll' = 0" "LinkedList_elems hl' ll' = []"
    "\<forall>a\<in>LinkedList_cells hl ll. cell hl' a = None"
    by blast
  from LinkedList_clear_wf [OF a(2)]
  obtain ll'' hl'' where b: "LinkedList_clear ll' hl' = Some (ll'', hl'')"
    "mSize_L ll'' = 0" "LinkedList_elems hl'' ll'' = []"
    by blast
  from a(1,3-7) b show "\<exists>ll' hl' ll'' hl''. LinkedList_clear ll hl = Some (ll', hl') \<and>
      ll' = fst (LinkedList_ctor hl) \<and>
      cell hl' (mTail ll') = cell (snd (LinkedList_ctor hl)) (mTail ll') \<and>
      LinkedList_size ll' = 0 \<and> LinkedList_isEmpty ll' \<and> LinkedList_elems hl' ll' = [] \<and>
      (\<forall>a\<in>LinkedList_cells hl ll. cell hl' a = None) \<and>
      LinkedList_clear ll' hl' = Some (ll'', hl'') \<and>
      LinkedList_size ll'' = 0 \<and> LinkedList_isEmpty ll'' \<and> LinkedList_elems hl'' ll'' = []"
    by (simp add: LinkedList_size_def LinkedList_isEmpty_def)
qed

theorem C9_clear_witness:
  "ArrayList_wf [Some [1, 2, 3, 0 :: int]] \<lparr>mSize = 3, mCapacity = 4, mArray = 0\<rparr> \<and>
   LinkedList_wf list123 \<lparr>mSize_L = 3, mTail = 0\<rparr> \<and>
   (\<exists>la' ha' la'' ha''.
      ArrayList_clear int_limit \<lparr>mSize = 3, mCapacity = 4, mArray = 0\<rparr> [Some [1, 2, 3, 0 :: int]] = Some (la', ha') \<and>
      ArrayList_size la' = 0 \<and> ArrayList_elems ha' la' = [] \<and> cell ha' 0 = None \<and>
      ArrayList_clear int_limit la' ha' = Some (la'', ha'') \<and> ArrayList_size la'' = 0) \<and>
   (\<exists>ll' hl' ll'' hl''.
      LinkedList_clear \<lparr>mSize_L = 3, mTail = 0\<rparr> list123 = Some (ll', hl') \<and>
      LinkedList_size ll' = 0 \<and> LinkedList_elems hl' ll' = [] \<and>
      LinkedList_clear ll' hl' = Some (ll'', hl'') \<and> LinkedList_size ll'' = 0)"
proof -
  let ?ha = "[Some [1, 2, 3, 0 :: int]]" and ?la = "\<lparr>mSize = 3, mCapacity = 4, mArray = 0\<rparr>"
  have wa: "ArrayList_wf ?ha ?la"
    by (simp add: ArrayList_wf_def cell_def)
  from C9_clear [OF wa list123_wf, of int_limit] wa list123_wf show ?thesis
    by simp blast
qed

text \<open>
  C10. The operations of the ArrayList that obtain a new buffer in order to grow are to
  leave the capacity at twice the resulting size, the copy constructor at the size. They
  do on lists of fewer than \<open>2^31\<close> elements while twice the size is a \<open>size_t\<close> value
  (\<open>ArrayList_ctor_ok\<close>, \<open>ArrayList_add_ok\<close>, \<open>ArrayList_add_at_ok\<close>,
  \<open>ArrayList_copy_ctor_ok\<close>). The list \<open>[1, 2, 3, 4]\<close> of capacity 4 has capacity 10 and size 5 after \<open>add\<close>, and
  capacity 14 and size 7 after \<open>add(6, value)\<close>; its copy has capacity 4. But the capacity
  is computed in \<open>size_t\<close> with nothing to stop it from wrapping around. On the list made
  by the default constructor, \<open>add(2^63 - 1, 5)\<close> has \<open>newSize = 2^63\<close> and
  \<open>newCap = 2 * 2^63 = 0\<close>: it obtains a buffer of no slots and \<open>std::fill\<close> writes from its
  start on, outside the buffer.
\<close>

theorem C10_capacity_wraps:
  "ArrayList_add int_limit (Val 5) \<lparr>mSize = 4, mCapacity = 4, mArray = 0\<rparr> [Some [1, 2, 3, 4 :: int]] =
     Returns () (\<lparr>mSize = 5, mCapacity = 10, mArray = 1\<rparr>, [None, Some [1, 2, 3, 4, 5, 0, 0, 0, 0, 0]]) \<and>
   (\<exists>h'. ArrayList_add_at int_limit 6 (5 :: int) \<lparr>mSize = 4, mCapacity = 4, mArray = 0\<rparr> [Some [1, 2, 3, 4]] =
     Returns () (\<lparr>mSize = 7, mCapacity = 14, mArray = 1\<rparr>, h')) \<and>
   ArrayList_copy_ctor int_limit \<lparr>mSize = 4, mCapacity = 4, mArray = 0\<rparr> [Some [1, 2, 3, 4 :: int]] =
     Returns \<lparr>mSize = 4, mCapacity = 4, mArray = 1\<rparr> [Some [1, 2, 3, 4], Some [1, 2, 3, 4]] \<and>
   (2 :: size_t) * (9223372036854775807 + 1) = 0 \<and>
   ArrayList_add_at int_limit 9223372036854775807 (5 :: int) \<lparr>mSize = 0, mCapacity = 0, mArray = 0\<rparr> [Some []] =
     Undefined"
  by (simp add: al_eval int_limit_def default_int_def replicate_numeral_Cons)

end
